theory Spec2Isabelle
  imports
    Main
    "HOL-Library.Word"
    "HOL-Library.Multiset"
    "HOL-Library.List_Lexorder"
    "HOL-Library.Char_ord"
begin

section \<open>Filtered Space-Saving top-k sketch (topk.go)\<close>

text \<open>
  A shallow embedding of \<^verbatim>\<open>topk.go\<close>. Conventions:
  \<^item> Go's \<^verbatim>\<open>int\<close> is a 64-bit two's complement integer (on the 64-bit platforms
    the package is built for). Its values are modelled as \<open>int\<close>, and every
    addition of two counts, weights or filter buckets that the source performs
    is \<open>int64_add\<close>, which wraps around at \<open>2^63\<close> as Go's \<^verbatim>\<open>+\<close> does. The sizes of
    the two slices, \<^verbatim>\<open>n*bufMultiplier\<close> and \<^verbatim>\<open>n*bufMultiplier*6\<close>, are products of
    integers. \<^verbatim>\<open>reduce\<close>, whose meaning is the bit width, is modelled on machine
    words.
  \<^item> \<^verbatim>\<open>metro.Hash64Str(x, 0)\<close> is an external library function; it is the
    parameter \<open>hash\<close> of every operation that calls it, and every theorem holds for
    every such function.
  \<^item> a run-time panic and a returned \<^verbatim>\<open>error\<close> are values of the type \<open>error\<close>.
  \<^item> \<^verbatim>\<open>container/heap\<close> (\<^verbatim>\<open>up\<close>, \<^verbatim>\<open>down\<close>, \<^verbatim>\<open>Push\<close>, \<^verbatim>\<open>Fix\<close>) and
    \<^verbatim>\<open>sort.Sort\<close> belong to Go's standard library; they are embedded from the
    library's source text, which is quoted at each definition.
\<close>

subsection \<open>Errors\<close>

datatype error =
    IndexOutOfRange          \<comment> \<open>panic: index out of range\<close>
  | SliceBoundsOutOfRange    \<comment> \<open>panic: slice bounds out of range\<close>
  | MakeOutOfRange           \<comment> \<open>panic: makeslice: len or cap out of range\<close>
  | SizeMismatch int int     \<comment> \<open>the error value returned by \<^verbatim>\<open>Merge\<close>\<close>
  | ShortRead                \<comment> \<open>the reader ran out of input\<close>
  | TypeMismatch             \<comment> \<open>the reader met an object of another kind\<close>
  | ConfigurationError       \<comment> \<open>the specification's error for a non-positive target size\<close>

subsection \<open>Go's integer addition\<close>

text \<open>
  The Go specification: for signed integers the operation \<^verbatim>\<open>+\<close> may legally
  overflow, and the resulting value is deterministically defined by the signed
  integer representation; no run-time panic is raised. \<open>int64_wrap\<close> maps an
  integer to the 64-bit two's complement value with the same low 64 bits;
  \<open>int64_add\<close> is \<^verbatim>\<open>a + b\<close> on two values of type \<^verbatim>\<open>int\<close>.
\<close>

definition int64_wrap :: "int \<Rightarrow> int" where
  "int64_wrap x = (x + 2 ^ 63) mod 2 ^ 64 - 2 ^ 63"

definition int64_add :: "int \<Rightarrow> int \<Rightarrow> int" where
  "int64_add a b = int64_wrap (a + b)"

subsection \<open>Elements and the two orders\<close>

definition bufMultiplier :: int where
  "bufMultiplier = 6"

record Element =
  Key :: string
  Count :: int
  Error :: int

text \<open>
  \<^verbatim>\<open>func (elts elementsByCountDescending) Less(i, j int) bool {
    return (elts[i].Count > elts[j].Count) ||
           (elts[i].Count == elts[j].Count && elts[i].Key < elts[j].Key) }\<close>
  on the two elements compared. Go compares strings bytewise, as the
  lexicographic order on \<open>char list\<close> does.
\<close>

definition elementsByCountDescending_Less :: "Element \<Rightarrow> Element \<Rightarrow> bool" where
  "elementsByCountDescending_Less a b =
     (Count a > Count b \<or> (Count a = Count b \<and> Key a < Key b))"

text \<open>
  \<^verbatim>\<open>sort.Sort\<close> rearranges the slice so that it is ordered by \<^verbatim>\<open>Less\<close>; it is not
  stable. It is modelled by insertion sort. Lemma \<open>sorted_by_unique\<close> below
  shows that on elements with pairwise different keys every algorithm that returns
  an ordered rearrangement returns this list.
\<close>

fun insert_by :: "('a \<Rightarrow> 'a \<Rightarrow> bool) \<Rightarrow> 'a \<Rightarrow> 'a list \<Rightarrow> 'a list" where
  "insert_by lt x [] = [x]"
| "insert_by lt x (y # ys) = (if lt y x then y # insert_by lt x ys else x # y # ys)"

fun sort_Sort :: "('a \<Rightarrow> 'a \<Rightarrow> bool) \<Rightarrow> 'a list \<Rightarrow> 'a list" where
  "sort_Sort lt [] = []"
| "sort_Sort lt (x # xs) = insert_by lt x (sort_Sort lt xs)"

text \<open>A slice is ordered by \<^verbatim>\<open>Less\<close> when no later entry is less than an earlier one.\<close>

definition ordered_by :: "('a \<Rightarrow> 'a \<Rightarrow> bool) \<Rightarrow> 'a list \<Rightarrow> bool" where
  "ordered_by lt xs = sorted_wrt (\<lambda>a b. \<not> lt b a) xs"

subsection \<open>The monitored set: a heap with an index map\<close>

text \<open>
  \<^verbatim>\<open>type keys struct { m map[string]int; elts []Element }\<close>
\<close>

record keys =
  m :: "string \<rightharpoonup> int"
  elts :: "Element list"

definition keys_Len :: "keys \<Rightarrow> nat" where
  "keys_Len tk = length (elts tk)"

text \<open>
  \<^verbatim>\<open>func (tk *keys) Less(i, j int) bool {
    return (tk.elts[i].Count < tk.elts[j].Count) ||
           (tk.elts[i].Count == tk.elts[j].Count && tk.elts[i].Error > tk.elts[j].Error) }\<close>
\<close>

definition Element_Less :: "Element \<Rightarrow> Element \<Rightarrow> bool" where
  "Element_Less a b = (Count a < Count b \<or> (Count a = Count b \<and> Error a > Error b))"

definition keys_Less :: "keys \<Rightarrow> nat \<Rightarrow> nat \<Rightarrow> bool" where
  "keys_Less tk i j = Element_Less (elts tk ! i) (elts tk ! j)"

text \<open>
  \<^verbatim>\<open>func (tk *keys) Swap(i, j int) {
    tk.elts[i], tk.elts[j] = tk.elts[j], tk.elts[i]
    tk.m[tk.elts[i].Key] = i
    tk.m[tk.elts[j].Key] = j }\<close>
\<close>

definition keys_Swap :: "keys \<Rightarrow> nat \<Rightarrow> nat \<Rightarrow> keys" where
  "keys_Swap tk i j =
     (let es = (elts tk)[i := elts tk ! j, j := elts tk ! i]
      in \<lparr>m = ((m tk)(Key (es ! i) \<mapsto> int i))(Key (es ! j) \<mapsto> int j), elts = es\<rparr>)"

text \<open>
  \<^verbatim>\<open>func (tk *keys) Push(x interface{}) {
    e := x.(Element)
    tk.m[e.Key] = len(tk.elts)
    tk.elts = append(tk.elts, e) }\<close>
\<close>

definition keys_Push :: "keys \<Rightarrow> Element \<Rightarrow> keys" where
  "keys_Push tk e = \<lparr>m = (m tk)(Key e \<mapsto> int (length (elts tk))), elts = elts tk @ [e]\<rparr>"


subsection \<open>container/heap\<close>

text \<open>
  \<^verbatim>\<open>func up(h Interface, j int) {
    for {
      i := (j - 1) / 2 // parent
      if i == j || !h.Less(j, i) { break }
      h.Swap(i, j)
      j = i } }\<close>
  Go's division truncates, so that the parent of slot 0 is slot 0; the truncating
  subtraction of \<open>nat\<close> gives the same slot. Every slot the loop reads is at most
  the slot it starts from.
\<close>

function heap_up :: "keys \<Rightarrow> nat \<Rightarrow> keys" where
  "heap_up h j =
     (let i = (j - 1) div 2
      in if i = j \<or> \<not> keys_Less h j i then h else heap_up (keys_Swap h i j) i)"
  by pat_completeness auto
termination
  by (relation "measure snd") auto

declare heap_up.simps [simp del]

text \<open>
  \<^verbatim>\<open>func down(h Interface, i0, n int) bool {
    i := i0
    for {
      j1 := 2*i + 1
      if j1 >= n || j1 < 0 { break }   // j1 < 0 after int overflow
      j := j1 // left child
      if j2 := j1 + 1; j2 < n && h.Less(j2, j1) { j = j2 }
      if !h.Less(j, i) { break }
      h.Swap(i, j)
      i = j }
    return i > i0 }\<close>
  \<open>down_loop\<close> is the loop, returning the heap and the final slot \<open>i\<close>.
\<close>

function down_loop :: "keys \<Rightarrow> nat \<Rightarrow> nat \<Rightarrow> keys \<times> nat" where
  "down_loop h i len =
     (let j1 = 2 * i + 1
      in if j1 \<ge> len then (h, i)
         else let j = (if j1 + 1 < len \<and> keys_Less h (j1 + 1) j1 then j1 + 1 else j1)
              in if \<not> keys_Less h j i then (h, i)
                 else down_loop (keys_Swap h i j) j len)"
  by pat_completeness auto
termination
  by (relation "measure (\<lambda>(h, i, len). len - i)") auto

declare down_loop.simps [simp del]

definition heap_down :: "keys \<Rightarrow> nat \<Rightarrow> nat \<Rightarrow> keys \<times> bool" where
  "heap_down h i0 len = (let (h', i) = down_loop h i0 len in (h', i > i0))"

text \<open>
  \<^verbatim>\<open>func Push(h Interface, x any) { h.Push(x); up(h, h.Len()-1) }\<close>
  \<^verbatim>\<open>func Fix(h Interface, i int) { if !down(h, i, h.Len()) { up(h, i) } }\<close>
\<close>

definition heap_Push :: "keys \<Rightarrow> Element \<Rightarrow> keys" where
  "heap_Push h x = (let h1 = keys_Push h x in heap_up h1 (keys_Len h1 - 1))"

definition heap_Fix :: "keys \<Rightarrow> nat \<Rightarrow> keys" where
  "heap_Fix h i =
     (case heap_down h i (keys_Len h) of
        (h', moved) \<Rightarrow> if \<not> moved then heap_up h' i else h')"

subsection \<open>The stream\<close>

text \<open>
  \<^verbatim>\<open>type Stream struct { n int; k keys; alphas []int }\<close>
\<close>

record Stream =
  n :: int
  k :: keys
  alphas :: "int list"

text \<open>
  \<^verbatim>\<open>func reduce(x uint64, n int) uint32 {
    return uint32(uint64(uint32(x)) * uint64(n) >> 32) }\<close>
  In Go \<^verbatim>\<open>*\<close> and \<^verbatim>\<open>>>\<close> have the same precedence and associate to the left: the
  product is shifted.
\<close>

definition reduce :: "64 word \<Rightarrow> int \<Rightarrow> 32 word" where
  "reduce x len =
     ucast (drop_bit 32 ((ucast (ucast x :: 32 word) :: 64 word) * (word_of_int len :: 64 word)))"

text \<open>
  \<^verbatim>\<open>func New(n int) *Stream\<close>: \<^verbatim>\<open>make([]Element, 0, n*bufMultiplier)\<close> panics for a
  negative \<^verbatim>\<open>n\<close>.
\<close>

definition New :: "int \<Rightarrow> error + Stream" where
  "New sz =
     (if sz < 0 then Inl MakeOutOfRange
      else Inr \<lparr>n = sz, k = \<lparr>m = Map.empty, elts = []\<rparr>,
                alphas = replicate (nat (sz * bufMultiplier * 6)) 0\<rparr>)"

text \<open>The bucket of a key: \<^verbatim>\<open>reduce(metro.Hash64Str(x, 0), len(s.alphas))\<close>.\<close>

definition bucket :: "(string \<Rightarrow> 64 word) \<Rightarrow> Stream \<Rightarrow> string \<Rightarrow> nat" where
  "bucket hash s x = unat (reduce (hash x) (int (length (alphas s))))"

text \<open>
  \<^verbatim>\<open>func (s *Stream) Insert(x string, count int) Element\<close>, returning the element
  and the stream after the call. The four paths are, in the source's order: the key
  is tracked; there is free space; the filter absorbs the weight; the minimum is
  replaced. In the last one the bucket of \<open>x\<close> is read after the bucket of the
  minimum has been written, as in the source. \<^verbatim>\<open>s.k.elts[idx].Count += count\<close>,
  \<^verbatim>\<open>s.alphas[xhash]+count\<close> and \<^verbatim>\<open>s.alphas[xhash] += count\<close> are additions of
  \<^verbatim>\<open>int\<close> values, which wrap around.
\<close>

definition Insert ::
  "(string \<Rightarrow> 64 word) \<Rightarrow> Stream \<Rightarrow> string \<Rightarrow> int \<Rightarrow> error + (Element \<times> Stream)" where
  "Insert hash s x cnt =
     (let xhash = bucket hash s x in
      case m (k s) x of
        Some idx \<Rightarrow>
          if idx < 0 \<or> int (length (elts (k s))) \<le> idx then Inl IndexOutOfRange
          else
            let e = (elts (k s) ! nat idx)
                      \<lparr>Count := int64_add (Count (elts (k s) ! nat idx)) cnt\<rparr>;
                k1 = (k s)\<lparr>elts := (elts (k s))[nat idx := e]\<rparr>
            in Inr (e, s\<lparr>k := heap_Fix k1 (nat idx)\<rparr>)
      | None \<Rightarrow>
          if int (length (elts (k s))) < n s * bufMultiplier then
            let e = \<lparr>Key = x, Count = cnt, Error = 0\<rparr>
            in Inr (e, s\<lparr>k := heap_Push (k s) e\<rparr>)
          else if length (alphas s) \<le> xhash \<or> elts (k s) = [] then Inl IndexOutOfRange
          else if int64_add (alphas s ! xhash) cnt < Count (elts (k s) ! 0) then
            let e = \<lparr>Key = x, Count = int64_add (alphas s ! xhash) cnt,
                     Error = alphas s ! xhash\<rparr>
            in Inr (e, s\<lparr>alphas := (alphas s)[xhash := int64_add (alphas s ! xhash) cnt]\<rparr>)
          else
            let minElement = elts (k s) ! 0;
                mkhash = bucket hash s (Key minElement)
            in if length (alphas s) \<le> mkhash then Inl IndexOutOfRange
               else
                 let alphas1 = (alphas s)[mkhash := Count minElement];
                     e = \<lparr>Key = x, Count = int64_add (alphas1 ! xhash) cnt,
                          Error = alphas1 ! xhash\<rparr>;
                     k1 = \<lparr>m = ((m (k s))(Key minElement := None))(x \<mapsto> 0),
                           elts = (elts (k s))[0 := e]\<rparr>
                 in Inr (e, s\<lparr>k := heap_Fix k1 0, alphas := alphas1\<rparr>))"

text \<open>
  \<^verbatim>\<open>func (s *Stream) Merge(other *Stream) error\<close>. The loop over \<^verbatim>\<open>eKeys\<close> computes
  one combined element per key; \<open>merge_key\<close> is its body. Both \<^verbatim>\<open>min1\<close> and
  \<^verbatim>\<open>min2\<close> are read from \<^verbatim>\<open>other.alphas\<close>, at a bucket reduced by
  \<^verbatim>\<open>len(s.alphas)\<close>, as in the source. The \<^verbatim>\<open>switch\<close> has no default case.
\<close>

definition merge_key ::
  "(string \<Rightarrow> 64 word) \<Rightarrow> Stream \<Rightarrow> Stream \<Rightarrow> string \<Rightarrow> error + Element option" where
  "merge_key hash s other key =
     (let xhash = bucket hash s key in
      if length (alphas other) \<le> xhash then Inl IndexOutOfRange
      else
        let min1 = alphas other ! xhash;
            min2 = alphas other ! xhash
        in case (m (k s) key, m (k other) key) of
             (Some idx1, Some idx2) \<Rightarrow>
               if idx1 < 0 \<or> int (length (elts (k s))) \<le> idx1
                  \<or> idx2 < 0 \<or> int (length (elts (k other))) \<le> idx2
               then Inl IndexOutOfRange
               else
                 let e1 = elts (k s) ! nat idx1; e2 = elts (k other) ! nat idx2
                 in Inr (Some \<lparr>Key = key, Count = int64_add (Count e1) (Count e2),
                               Error = int64_add (Error e1) (Error e2)\<rparr>)
           | (Some idx1, None) \<Rightarrow>
               if idx1 < 0 \<or> int (length (elts (k s))) \<le> idx1 then Inl IndexOutOfRange
               else
                 let e1 = elts (k s) ! nat idx1
                 in Inr (Some \<lparr>Key = key, Count = int64_add (Count e1) min2,
                               Error = int64_add (Error e1) min2\<rparr>)
           | (None, Some idx2) \<Rightarrow>
               if idx2 < 0 \<or> int (length (elts (k other))) \<le> idx2 then Inl IndexOutOfRange
               else
                 let e2 = elts (k other) ! nat idx2
                 in Inr (Some \<lparr>Key = key, Count = int64_add (Count e2) min1,
                               Error = int64_add (Error e2) min1\<rparr>)
           | (None, None) \<Rightarrow> Inr None)"

text \<open>
  The keys of \<^verbatim>\<open>eKeys\<close>, each once. Go ranges over a map in an unspecified order;
  the combined elements are sorted afterwards, and they have pairwise different
  keys, so that the order of the range does not show in the result.
\<close>

definition eKeys :: "Stream \<Rightarrow> Stream \<Rightarrow> string list" where
  "eKeys s other = remdups (map Key (elts (k s)) @ map Key (elts (k other)))"

fun merge_elts ::
  "(string \<Rightarrow> 64 word) \<Rightarrow> Stream \<Rightarrow> Stream \<Rightarrow> string list \<Rightarrow> error + Element list" where
  "merge_elts hash s other [] = Inr []"
| "merge_elts hash s other (key # rest) =
     (case merge_key hash s other key of
        Inl err \<Rightarrow> Inl err
      | Inr r \<Rightarrow>
          (case merge_elts hash s other rest of
             Inl err \<Rightarrow> Inl err
           | Inr es \<Rightarrow> Inr (case r of None \<Rightarrow> es | Some e \<Rightarrow> e # es)))"

text \<open>
  \<^verbatim>\<open>for i, v := range other.alphas { s.alphas[i] += v }\<close> panics when
  \<^verbatim>\<open>other.alphas\<close> is the longer slice. In \<^verbatim>\<open>Merge\<close>, a negative \<^verbatim>\<open>s.n\<close> is less
  than every length, so that \<^verbatim>\<open>elts[:s.n]\<close> panics before \<^verbatim>\<open>make\<close> can.
\<close>

definition add_alphas :: "int list \<Rightarrow> int list \<Rightarrow> error + int list" where
  "add_alphas xs ys =
     (if length xs < length ys then Inl IndexOutOfRange
      else Inr (map2 int64_add (take (length ys) xs) ys @ drop (length ys) xs))"

definition Merge :: "(string \<Rightarrow> 64 word) \<Rightarrow> Stream \<Rightarrow> Stream \<Rightarrow> error + Stream" where
  "Merge hash s other =
     (if n s \<noteq> n other then Inl (SizeMismatch (n s) (n other))
      else
        case merge_elts hash s other (eKeys s other) of
          Inl err \<Rightarrow> Inl err
        | Inr es \<Rightarrow>
            (let srt = sort_Sort elementsByCountDescending_Less es in
             if int (length srt) > n s \<and> n s < 0 then Inl SliceBoundsOutOfRange
             else
               let trimmed = (if int (length srt) > n s then take (nat (n s)) srt else srt);
                   tk = foldl heap_Push \<lparr>m = Map.empty, elts = []\<rparr> trimmed
               in (case add_alphas (alphas s) (alphas other) of
                     Inl err \<Rightarrow> Inl err
                   | Inr al \<Rightarrow> Inr (s\<lparr>k := tk, alphas := al\<rparr>))))"

text \<open>
  \<^verbatim>\<open>func (s *Stream) Keys() []Element\<close> sorts a copy of \<^verbatim>\<open>s.k.elts\<close>
  (\<^verbatim>\<open>append([]Element(nil), s.k.elts...)\<close>), so that the stream it returns with the
  result is the stream it was given. \<^verbatim>\<open>elts[:s.n]\<close> panics for a negative
  \<^verbatim>\<open>s.n\<close>.
\<close>

definition Keys :: "Stream \<Rightarrow> error + (Element list \<times> Stream)" where
  "Keys s =
     (let es = sort_Sort elementsByCountDescending_Less (elts (k s)) in
      if int (length es) > n s then
        (if n s < 0 then Inl SliceBoundsOutOfRange else Inr (take (nat (n s)) es, s))
      else Inr (es, s))"

text \<open>\<^verbatim>\<open>func (s *Stream) Estimate(x string) Element\<close>\<close>

definition Estimate :: "(string \<Rightarrow> 64 word) \<Rightarrow> Stream \<Rightarrow> string \<Rightarrow> error + Element" where
  "Estimate hash s x =
     (let xhash = bucket hash s x in
      case m (k s) x of
        Some idx \<Rightarrow>
          if idx < 0 \<or> int (length (elts (k s))) \<le> idx then Inl IndexOutOfRange
          else Inr (elts (k s) ! nat idx)
      | None \<Rightarrow>
          if length (alphas s) \<le> xhash then Inl IndexOutOfRange
          else Inr \<lparr>Key = x, Count = alphas s ! xhash, Error = alphas s ! xhash\<rparr>)"


subsection \<open>Serialization\<close>














subsection \<open>Runs\<close>

text \<open>
  A hash function for the worked examples. It sends every key to bucket 0, which
  makes any two keys collide; every hash function has colliding keys, there being
  more strings than buckets.
\<close>

definition one_bucket_hash :: "string \<Rightarrow> 64 word" where
  "one_bucket_hash x = 0"

text \<open>A sequence of \<^verbatim>\<open>Insert\<close> calls; a panic ends the run.\<close>

fun inserts ::
  "(string \<Rightarrow> 64 word) \<Rightarrow> Stream \<Rightarrow> (string \<times> int) list \<Rightarrow> error + Stream" where
  "inserts hash s [] = Inr s"
| "inserts hash s ((x, w) # ops) =
     (case Insert hash s x w of
        Inl err \<Rightarrow> Inl err
      | Inr (e, s') \<Rightarrow> inserts hash s' ops)"

text \<open>The cumulative weight inserted for a key by a sequence of calls.\<close>

definition trueFrequency :: "(string \<times> int) list \<Rightarrow> string \<Rightarrow> int" where
  "trueFrequency ops x = sum_list (map snd (filter (\<lambda>p. fst p = x) ops))"

text \<open>
  The streams that the public operations build: \<^verbatim>\<open>New\<close> with a positive size,
  then \<^verbatim>\<open>Insert\<close> and successful \<^verbatim>\<open>Merge\<close> calls.
\<close>

inductive reachable :: "(string \<Rightarrow> 64 word) \<Rightarrow> Stream \<Rightarrow> bool" for hash where
  reach_New: "1 \<le> sz \<Longrightarrow> New sz = Inr s \<Longrightarrow> reachable hash s"
| reach_Insert: "reachable hash s \<Longrightarrow> Insert hash s x w = Inr (e, s') \<Longrightarrow> reachable hash s'"
| reach_Merge:
    "reachable hash s \<Longrightarrow> reachable hash other \<Longrightarrow> Merge hash s other = Inr s'
     \<Longrightarrow> reachable hash s'"

text \<open>
  A full stream for the worked examples: \<^verbatim>\<open>New(1)\<close>, six keys inserted with weight
  10, and a seventh with weight 3, which the filter absorbs.
\<close>

definition full_example :: Stream where
  "full_example =
     \<lparr>n = 1,
      k = \<lparr>m = [''a'' \<mapsto> 0, ''b'' \<mapsto> 1, ''c'' \<mapsto> 2, ''d'' \<mapsto> 3, ''e'' \<mapsto> 4, ''f'' \<mapsto> 5],
           elts = [\<lparr>Key = ''a'', Count = 10, Error = 0\<rparr>, \<lparr>Key = ''b'', Count = 10, Error = 0\<rparr>,
                   \<lparr>Key = ''c'', Count = 10, Error = 0\<rparr>, \<lparr>Key = ''d'', Count = 10, Error = 0\<rparr>,
                   \<lparr>Key = ''e'', Count = 10, Error = 0\<rparr>, \<lparr>Key = ''f'', Count = 10, Error = 0\<rparr>]\<rparr>,
      alphas = (replicate 36 0)[0 := 3]\<rparr>"

text \<open>
  A full stream whose counts are the largest \<^verbatim>\<open>int\<close>: \<^verbatim>\<open>New(1)\<close> and six keys
  inserted with weight \<open>9223372036854775807 = 2^63 - 1\<close>.
\<close>

definition overflow_example :: Stream where
  "overflow_example =
     \<lparr>n = 1,
      k = \<lparr>m = [''a'' \<mapsto> 0, ''b'' \<mapsto> 1, ''c'' \<mapsto> 2, ''d'' \<mapsto> 3, ''e'' \<mapsto> 4, ''f'' \<mapsto> 5],
           elts = [\<lparr>Key = ''a'', Count = 9223372036854775807, Error = 0\<rparr>,
                   \<lparr>Key = ''b'', Count = 9223372036854775807, Error = 0\<rparr>,
                   \<lparr>Key = ''c'', Count = 9223372036854775807, Error = 0\<rparr>,
                   \<lparr>Key = ''d'', Count = 9223372036854775807, Error = 0\<rparr>,
                   \<lparr>Key = ''e'', Count = 9223372036854775807, Error = 0\<rparr>,
                   \<lparr>Key = ''f'', Count = 9223372036854775807, Error = 0\<rparr>]\<rparr>,
      alphas = replicate 36 0\<rparr>"

subsection \<open>The sketch with its total-weight counter\<close>

text \<open>
  Modelled from the spec: the sketch type that the tests build with \<^verbatim>\<open>New\<close> and ask
  for \<^verbatim>\<open>Count()\<close> and \<^verbatim>\<open>Clear()\<close> is missing from the sources, which hold the
  \<^verbatim>\<open>Stream\<close> alone. Following \<open>\<section>3\<close>, it is a stream together with "a cumulative
  total-weight counter incremented by every Insert's weight argument".
\<close>

record TopK =
  stream :: Stream
  totalWeight :: int

text \<open>
  Modelled from the spec: the constructor of the missing sketch type. \<open>\<section>6\<close> and
  \<open>\<section>7\<close>: a non-positive target size is a \<open>ConfigurationError\<close>; the counter of a
  new sketch is zero.
\<close>

definition TopK_New :: "int \<Rightarrow> error + TopK" where
  "TopK_New sz =
     (if sz \<le> 0 then Inl ConfigurationError
      else case New sz of
             Inl err \<Rightarrow> Inl err
           | Inr s \<Rightarrow> Inr \<lparr>stream = s, totalWeight = 0\<rparr>)"

text \<open>
  Modelled from the spec: \<^verbatim>\<open>Insert\<close> of the missing sketch type. \<open>\<section>4.4\<close>, step 1:
  "Always add \<open>weight\<close> to the total-weight counter"; the other steps are those of
  \<^verbatim>\<open>Stream.Insert\<close>.
\<close>

definition TopK_Insert ::
  "(string \<Rightarrow> 64 word) \<Rightarrow> TopK \<Rightarrow> string \<Rightarrow> int \<Rightarrow> error + (Element \<times> TopK)" where
  "TopK_Insert hash t x w =
     (case Insert hash (stream t) x w of
        Inl err \<Rightarrow> Inl err
      | Inr (e, s') \<Rightarrow> Inr (e, \<lparr>stream = s', totalWeight = totalWeight t + w\<rparr>))"

text \<open>
  Modelled from the spec: \<^verbatim>\<open>Count()\<close> of the missing sketch type, \<open>\<section>6\<close>: "the
  cumulative weight of all Insert calls since construction or last Clear".
\<close>

definition TopK_Count :: "TopK \<Rightarrow> int" where
  "TopK_Count t = totalWeight t"

text \<open>
  Modelled from the spec: \<^verbatim>\<open>Clear()\<close> of the missing sketch type, \<open>\<section>4.8\<close>: "Resets
  Monitored Set to empty (capacity and targetSize unchanged), Overflow Filter to all
  zeros, total-weight counter to zero."
\<close>

definition TopK_Clear :: "TopK \<Rightarrow> TopK" where
  "TopK_Clear t =
     \<lparr>stream = (stream t)\<lparr>k := \<lparr>m = Map.empty, elts = []\<rparr>,
                          alphas := replicate (length (alphas (stream t))) 0\<rparr>,
      totalWeight = 0\<rparr>"

text \<open>A sequence of \<^verbatim>\<open>Insert\<close> calls on the sketch.\<close>

fun TopK_inserts ::
  "(string \<Rightarrow> 64 word) \<Rightarrow> TopK \<Rightarrow> (string \<times> int) list \<Rightarrow> error + TopK" where
  "TopK_inserts hash t [] = Inr t"
| "TopK_inserts hash t ((x, w) # ops) =
     (case TopK_Insert hash t x w of
        Inl err \<Rightarrow> Inl err
      | Inr (e, t') \<Rightarrow> TopK_inserts hash t' ops)"



text \<open>
  Streams for the worked examples of \<^verbatim>\<open>Merge\<close>, for an arbitrary hash function:
  \<open>filtered_example\<close> is \<^verbatim>\<open>New(1)\<close> after six keys of weight 10 and the key
  \<open>g\<close> of weight 3, which the filter absorbs in the bucket of \<open>g\<close>;
  \<open>single_example x c\<close> is \<^verbatim>\<open>New(1)\<close> after \<^verbatim>\<open>Insert(x, c)\<close>.
\<close>

definition filtered_example :: "(string \<Rightarrow> 64 word) \<Rightarrow> Stream" where
  "filtered_example hash =
     \<lparr>n = 1,
      k = \<lparr>m = [''a'' \<mapsto> 0, ''b'' \<mapsto> 1, ''c'' \<mapsto> 2, ''d'' \<mapsto> 3, ''e'' \<mapsto> 4, ''f'' \<mapsto> 5],
           elts = [\<lparr>Key = ''a'', Count = 10, Error = 0\<rparr>, \<lparr>Key = ''b'', Count = 10, Error = 0\<rparr>,
                   \<lparr>Key = ''c'', Count = 10, Error = 0\<rparr>, \<lparr>Key = ''d'', Count = 10, Error = 0\<rparr>,
                   \<lparr>Key = ''e'', Count = 10, Error = 0\<rparr>, \<lparr>Key = ''f'', Count = 10, Error = 0\<rparr>]\<rparr>,
      alphas = (replicate 36 0)[unat (reduce (hash ''g'') 36) := 3]\<rparr>"

definition single_example :: "string \<Rightarrow> int \<Rightarrow> Stream" where
  "single_example x c =
     \<lparr>n = 1, k = \<lparr>m = [x \<mapsto> 0], elts = [\<lparr>Key = x, Count = c, Error = 0\<rparr>]\<rparr>,
      alphas = replicate 36 0\<rparr>"

section \<open>Specification predicates\<close>

text \<open>\<open>a\<close> is not after \<open>b\<close> in the heap order when \<^verbatim>\<open>Less\<close> does not put \<open>b\<close> first.\<close>

definition Element_le :: "Element \<Rightarrow> Element \<Rightarrow> bool" where
  "Element_le a b = (\<not> Element_Less b a)"

abbreviation parent :: "nat \<Rightarrow> nat" where
  "parent j \<equiv> (j - 1) div 2"

text \<open>
  The min-heap property of \<^verbatim>\<open>container/heap\<close>: no slot is less than its parent.
\<close>

definition is_heap :: "Element list \<Rightarrow> bool" where
  "is_heap es = (\<forall>c < length es. 0 < c \<longrightarrow> Element_le (es ! parent c) (es ! c))"

text \<open>
  The heap property everywhere but around slot \<open>i\<close>: the pairs that do not contain
  \<open>i\<close> are in order, and the children of \<open>i\<close> are not before the parent of \<open>i\<close>.
\<close>

definition heap_except :: "Element list \<Rightarrow> nat \<Rightarrow> bool" where
  "heap_except es i =
     ((\<forall>c < length es. 0 < c \<longrightarrow> c \<noteq> i \<longrightarrow> parent c \<noteq> i
         \<longrightarrow> Element_le (es ! parent c) (es ! c)) \<and>
      (\<forall>c < length es. 0 < c \<longrightarrow> parent c = i \<longrightarrow> 0 < i
         \<longrightarrow> Element_le (es ! parent i) (es ! c)))"

definition children_ok :: "Element list \<Rightarrow> nat \<Rightarrow> bool" where
  "children_ok es i =
     (\<forall>c < length es. 0 < c \<longrightarrow> parent c = i \<longrightarrow> Element_le (es ! i) (es ! c))"

definition parent_ok :: "Element list \<Rightarrow> nat \<Rightarrow> bool" where
  "parent_ok es i = (0 < i \<longrightarrow> Element_le (es ! parent i) (es ! i))"

text \<open>The child that \<^verbatim>\<open>down\<close> compares with slot \<open>i\<close>.\<close>

definition min_child :: "keys \<Rightarrow> nat \<Rightarrow> nat \<Rightarrow> nat" where
  "min_child h i len =
     (if 2 * i + 1 + 1 < len \<and> keys_Less h (2 * i + 1 + 1) (2 * i + 1) then 2 * i + 1 + 1
      else 2 * i + 1)"

text \<open>
  The index map is exact: every slot's key is mapped to that slot, and the map has
  no other key. Then no key is in two slots.
\<close>

definition index_ok :: "keys \<Rightarrow> bool" where
  "index_ok tk =
     ((\<forall>i < length (elts tk). m tk (Key (elts tk ! i)) = Some (int i)) \<and>
      dom (m tk) = Key ` set (elts tk))"

text \<open>
  The structural invariant of a stream: a positive target size, a filter of
  \<open>n * bufMultiplier * 6\<close> counters, at most \<open>n * bufMultiplier\<close> monitored elements,
  an exact index map and a heap.
\<close>

definition stream_inv :: "Stream \<Rightarrow> bool" where
  "stream_inv s =
     (1 \<le> n s \<and> length (alphas s) = nat (n s * bufMultiplier * 6) \<and>
      int (length (elts (k s))) \<le> n s * bufMultiplier \<and>
      index_ok (k s) \<and> is_heap (elts (k s)))"





section \<open>The range reducer\<close>

lemma reduce_unat:
  "unat (reduce x len) =
     ((unat (ucast x :: 32 word) * unat (word_of_int len :: 64 word)) mod 2 ^ 64 div 2 ^ 32)
       mod 2 ^ 32"
  unfolding reduce_def
  by (simp add: unsigned_ucast_eq unat_drop_bit_eq unat_word_ariths take_bit_eq_mod
      drop_bit_eq_div)

lemma unat_low32: "unat (ucast (x :: 64 word) :: 32 word) < 2 ^ 32"
  using unsigned_less [of "ucast x :: 32 word", where 'a = nat] by simp

lemma reduce_bound:
  assumes "1 \<le> len"
  shows "unat (reduce x len) < nat len"
proof (cases "len < 2 ^ 32")
  case True
  define a where "a = unat (ucast x :: 32 word)"
  define b where "b = unat (word_of_int len :: 64 word)"
  have a: "a < 2 ^ 32" unfolding a_def by (rule unat_low32)
  have b: "b = nat len" unfolding b_def using assms True
    by (simp add: unsigned_of_int take_bit_eq_mod nat_mod_distrib)
  have "a * b < 2 ^ 32 * b" using a b assms by simp
  hence "a * b div 2 ^ 32 < b" by (simp add: less_mult_imp_div_less mult.commute)
  moreover have "(a * b) mod 2 ^ 64 div 2 ^ 32 \<le> a * b div 2 ^ 32"
    by (simp add: div_le_mono)
  moreover have "((a * b) mod 2 ^ 64 div 2 ^ 32) mod 2 ^ 32 \<le> (a * b) mod 2 ^ 64 div 2 ^ 32"
    by simp
  ultimately show ?thesis
    unfolding reduce_unat a_def [symmetric] b_def [symmetric] using b by linarith
next
  case False
  have "unat (reduce x len) < 2 ^ 32"
    using unsigned_less [of "reduce x len", where 'a = nat] by simp
  moreover have "(2::nat) ^ 32 \<le> nat len" using False by simp
  ultimately show ?thesis by linarith
qed

lemma bucket_bound: "alphas s \<noteq> [] \<Longrightarrow> bucket hash s x < length (alphas s)"
  using reduce_bound [of "int (length (alphas s))" "hash x"]
  by (cases "alphas s") (simp_all add: bucket_def)

lemma reduce_unat_nat:
  "unat (reduce x len) = (unat x mod 2 ^ 32 * nat (len mod 2 ^ 64)) mod 2 ^ 64 div 2 ^ 32"
proof -
  have "unat (ucast x :: 32 word) = unat x mod 2 ^ 32"
    by (simp add: unsigned_ucast_eq take_bit_eq_mod)
  moreover have "unat (word_of_int len :: 64 word) = nat (len mod 2 ^ 64)"
    by (simp add: unsigned_of_int take_bit_eq_mod)
  moreover have "(a::nat) mod 2 ^ 64 div 2 ^ 32 mod 2 ^ 32 = a mod 2 ^ 64 div 2 ^ 32" for a
  proof -
    have "a mod 2 ^ 64 < 2 ^ 32 * 2 ^ 32" by simp
    then have "a mod 2 ^ 64 div 2 ^ 32 < 2 ^ 32" by (simp add: less_mult_imp_div_less)
    then show ?thesis by simp
  qed
  ultimately show ?thesis by (simp add: reduce_unat)
qed

text \<open>
  C9. \<^verbatim>\<open>reduce(x, n)\<close> is the high 32 bits of the 64-bit product of the low 32 bits of
  \<open>x\<close> with \<open>n\<close>: its value is \<open>(x mod 2^32 * n) mod 2^64 div 2^32\<close>. For every \<open>x\<close> and
  every \<open>n \<ge> 1\<close> it is below \<open>n\<close>. Hence the bucket of a key, reduced by the length of
  a non-empty filter, is an index of that filter: this is the index that
  \<^verbatim>\<open>Insert\<close> and \<^verbatim>\<open>Estimate\<close> use on \<^verbatim>\<open>s.alphas\<close>, and that \<^verbatim>\<open>Merge\<close> uses on
  \<^verbatim>\<open>other.alphas\<close>, a filter of the same length; and \<^verbatim>\<open>Estimate\<close> of a key that is
  not monitored returns the bucket without a panic.
\<close>

theorem reduce_in_range:
  "unat (reduce x len) = (unat x mod 2 ^ 32 * nat (len mod 2 ^ 64)) mod 2 ^ 64 div 2 ^ 32 \<and>
   (1 \<le> len \<longrightarrow> unat (reduce x len) < nat len) \<and>
   (alphas s \<noteq> [] \<longrightarrow> bucket hash s key < length (alphas s)) \<and>
   (alphas s \<noteq> [] \<and> length (alphas other) = length (alphas s)
      \<longrightarrow> bucket hash s key < length (alphas other)) \<and>
   (alphas s \<noteq> [] \<and> m (k s) key = None
      \<longrightarrow> Estimate hash s key =
            Inr \<lparr>Key = key, Count = alphas s ! bucket hash s key,
                 Error = alphas s ! bucket hash s key\<rparr>)"
proof (intro conjI impI)
  show "unat (reduce x len) = (unat x mod 2 ^ 32 * nat (len mod 2 ^ 64)) mod 2 ^ 64 div 2 ^ 32"
    by (rule reduce_unat_nat)
  show "unat (reduce x len) < nat len" if "1 \<le> len"
    using that by (rule reduce_bound)
  show "bucket hash s key < length (alphas s)" if "alphas s \<noteq> []"
    using that by (rule bucket_bound)
  show "bucket hash s key < length (alphas other)"
    if "alphas s \<noteq> [] \<and> length (alphas other) = length (alphas s)"
    using that bucket_bound [of s hash key] by simp
  show "Estimate hash s key =
          Inr \<lparr>Key = key, Count = alphas s ! bucket hash s key,
               Error = alphas s ! bucket hash s key\<rparr>"
    if "alphas s \<noteq> [] \<and> m (k s) key = None"
    using that bucket_bound [of s hash key] by (simp add: Estimate_def Let_def)
qed

theorem reduce_in_range_witness:
  "(1::int) \<le> 36 \<and> unat (reduce 9223372039002259456 36) = 18 \<and> (18::nat) < nat 36 \<and>
   alphas \<lparr>n = 1, k = \<lparr>m = Map.empty, elts = []\<rparr>, alphas = [4, 5]\<rparr> \<noteq> [] \<and>
   m (k \<lparr>n = 1, k = \<lparr>m = Map.empty, elts = []\<rparr>, alphas = [4, 5]\<rparr>) ''a'' = None \<and>
   bucket one_bucket_hash \<lparr>n = 1, k = \<lparr>m = Map.empty, elts = []\<rparr>, alphas = [4, 5]\<rparr> ''a'' < 2 \<and>
   Estimate one_bucket_hash \<lparr>n = 1, k = \<lparr>m = Map.empty, elts = []\<rparr>, alphas = [4, 5]\<rparr> ''a''
     = Inr \<lparr>Key = ''a'', Count = 4, Error = 4\<rparr>"
  using reduce_in_range [of 9223372039002259456 36
      "\<lparr>n = 1, k = \<lparr>m = Map.empty, elts = []\<rparr>, alphas = [4, 5]\<rparr>" one_bucket_hash "''a''"
      "\<lparr>n = 1, k = \<lparr>m = Map.empty, elts = []\<rparr>, alphas = [4, 5]\<rparr>"]
  by (simp add: bucket_def one_bucket_hash_def reduce_def)

section \<open>Evaluating the operations on concrete streams\<close>

lemmas eval_simps = Insert_def int64_add_def int64_wrap_def Let_def bucket_def
  one_bucket_hash_def reduce_def heap_Fix_def heap_down_def heap_Push_def keys_Push_def keys_Len_def keys_Swap_def keys_Less_def
  Element_Less_def bufMultiplier_def heap_up.simps down_loop.simps New_def

lemma reduce36: "unat (reduce x 36) < 36"
  using reduce_bound[of 36 x] by simp

lemma reduce36_le: "(36 \<le> unat (reduce x 36)) = False"
  using reduce36[of x] by simp

lemmas gen_simps = reduce36 reduce36_le Insert_def int64_add_def int64_wrap_def Let_def
  bucket_def heap_Fix_def heap_down_def heap_Push_def keys_Push_def keys_Len_def keys_Swap_def keys_Less_def
  Element_Less_def bufMultiplier_def heap_up.simps down_loop.simps New_def
  Merge_def merge_key_def eKeys_def add_alphas_def elementsByCountDescending_Less_def

section \<open>The heap operations\<close>

lemma Element_le_refl: "Element_le a a" by (simp add: Element_le_def Element_Less_def)
lemma Element_le_trans: "Element_le a b \<Longrightarrow> Element_le b c \<Longrightarrow> Element_le a c"
  by (auto simp: Element_le_def Element_Less_def)
lemma Element_Less_le: "Element_Less a b \<Longrightarrow> Element_le a b"
  by (auto simp: Element_le_def Element_Less_def)


lemma parent_less: "0 < c \<Longrightarrow> parent c < c" by arith

lemma elts_Swap [simp]: "elts (keys_Swap h i j) = (elts h)[i := elts h ! j, j := elts h ! i]"
  by (simp add: keys_Swap_def Let_def)

lemma heap_exceptI_update:
  assumes "is_heap es" "i < length es"
  shows "heap_except (es[i := v]) i"
  unfolding heap_except_def
proof (intro conjI allI impI)
  fix c assume c: "c < length (es[i := v])" "0 < c" "c \<noteq> i" "parent c \<noteq> i"
  then show "Element_le (es[i := v] ! parent c) (es[i := v] ! c)"
    using assms by (simp add: is_heap_def)
next
  fix c assume c: "c < length (es[i := v])" "0 < c" "parent c = i" "0 < i"
  have "c \<noteq> i" using c by arith
  moreover have "parent i \<noteq> i" using c by arith
  moreover have "Element_le (es ! parent i) (es ! i)" using assms c by (simp add: is_heap_def)
  moreover have "Element_le (es ! i) (es ! c)" using assms c by (auto simp add: is_heap_def)
  ultimately show "Element_le (es[i := v] ! parent i) (es[i := v] ! c)"
    using c by (auto intro: Element_le_trans)
qed

lemma is_heapI_up:
  assumes "heap_except es j" "children_ok es j" "parent_ok es j"
  shows "is_heap es"
  unfolding is_heap_def
proof (intro allI impI)
  fix c assume c: "c < length es" "0 < c"
  show "Element_le (es ! parent c) (es ! c)"
  proof (cases "c = j")
    case True then show ?thesis using assms(3) c by (simp add: parent_ok_def)
  next
    case False
    show ?thesis
    proof (cases "parent c = j")
      case True then show ?thesis using assms(2) c by (auto simp add: children_ok_def)
    next
      case F2: False
      then show ?thesis using assms(1) c False by (simp add: heap_except_def)
    qed
  qed
qed

lemma heap_up_is_heap:
  "heap_except (elts h) j \<Longrightarrow> children_ok (elts h) j \<Longrightarrow> j < length (elts h)
   \<Longrightarrow> is_heap (elts (heap_up h j))"
proof (induction h j rule: heap_up.induct)
  case (1 h j)
  let ?i = "parent j"
  let ?es = "elts h"
  show ?case
  proof (cases "?i = j \<or> \<not> keys_Less h j ?i")
    case True
    have "parent_ok ?es j"
      using True by (auto simp: parent_ok_def keys_Less_def Element_le_def)
    then have "is_heap ?es" using 1(2,3) by (rule is_heapI_up[rotated 2])
    moreover have "heap_up h j = h" using True by (subst heap_up.simps) (auto simp: Let_def)
    ultimately show ?thesis by simp
  next
    case False
    then have j0: "0 < j" and lt: "Element_Less (?es ! j) (?es ! ?i)"
      by (auto simp: keys_Less_def intro: Nat.gr0I)
    have ij: "?i < j" using j0 by arith
    let ?es' = "?es[?i := ?es ! j, j := ?es ! ?i]"
    have len: "length ?es' = length ?es" by simp
    have jl: "j < length ?es" by fact
    have il: "?i < length ?es" using ij jl by simp
    have nth_i: "?es' ! ?i = ?es ! j" using ij il jl by simp
    have nth_j: "?es' ! j = ?es ! ?i" using jl by simp
    have nth_o: "\<And>c. c \<noteq> ?i \<Longrightarrow> c \<noteq> j \<Longrightarrow> ?es' ! c = ?es ! c" by simp
    have he: "heap_except ?es j" by fact
    have co: "children_ok ?es j" by fact
    have pi_le_i: "0 < ?i \<Longrightarrow> Element_le (?es ! parent ?i) (?es ! ?i)"
      using he il ij unfolding heap_except_def
      by (metis less_irrefl_nat parent_less less_trans)
    have sib: "\<And>c. c < length ?es \<Longrightarrow> parent c = ?i \<Longrightarrow> c \<noteq> j \<Longrightarrow> 0 < c \<Longrightarrow> Element_le (?es ! ?i) (?es ! c)"
    proof -
      fix c assume c: "c < length ?es" "parent c = ?i" "c \<noteq> j" "0 < c"
      have "parent c \<noteq> j" using c ij by simp
      then show "Element_le (?es ! ?i) (?es ! c)" using he c unfolding heap_except_def by metis
    qed
    have 1: "heap_except ?es' ?i"
      unfolding heap_except_def len
    proof (intro conjI allI impI)
      fix c assume c: "c < length ?es" "0 < c" "c \<noteq> ?i" "parent c \<noteq> ?i"
      have cj: "c \<noteq> j" using c by auto
      show "Element_le (?es' ! parent c) (?es' ! c)"
      proof (cases "parent c = j")
        case True
        then have "Element_le (?es ! ?i) (?es ! c)" using he c j0 unfolding heap_except_def by metis
        then show ?thesis using True nth_j nth_o[OF c(3) cj] by simp
      next
        case False
        then have "Element_le (?es ! parent c) (?es ! c)" using he c cj unfolding heap_except_def by metis
        then show ?thesis using nth_o[OF c(3) cj] nth_o[OF c(4) False] by simp
      qed
    next
      fix c assume c: "c < length ?es" "0 < c" "parent c = ?i" "0 < ?i"
      have pp: "parent ?i \<noteq> ?i" "parent ?i \<noteq> j" using c ij by arith+
      have ci: "c \<noteq> ?i" using c by arith
      show "Element_le (?es' ! parent ?i) (?es' ! c)"
      proof (cases "c = j")
        case True
        then show ?thesis using pi_le_i[OF c(4)] nth_j nth_o[OF pp] by simp
      next
        case False
        then show ?thesis using Element_le_trans[OF pi_le_i[OF c(4)] sib[OF c(1) c(3) False c(2)]]
           nth_o[OF pp] nth_o[OF ci False] by simp
      qed
    qed
    have 2: "children_ok ?es' ?i"
      unfolding children_ok_def len
    proof (intro allI impI)
      fix c assume c: "c < length ?es" "0 < c" "parent c = ?i"
      have ci: "c \<noteq> ?i" using c by arith
      show "Element_le (?es' ! ?i) (?es' ! c)"
      proof (cases "c = j")
        case True
        then show ?thesis using nth_i nth_j Element_Less_le[OF lt] by simp
      next
        case False
        then show ?thesis using Element_le_trans[OF Element_Less_le[OF lt] sib[OF c(1) c(3) False c(2)]]
           nth_i nth_o[OF ci False] by simp
      qed
    qed
    have "is_heap (elts (heap_up (keys_Swap h ?i j) ?i))"
      using "1.IH"[OF refl] False 1 2 il by simp
    moreover have "heap_up h j = heap_up (keys_Swap h ?i j) ?i"
      using False by (subst heap_up.simps) (auto simp: Let_def)
    ultimately show ?thesis by simp
  qed
qed

lemma down_loop_unfold:
  "down_loop h i len =
     (if 2 * i + 1 \<ge> len then (h, i)
      else if \<not> keys_Less h (min_child h i len) i then (h, i)
      else down_loop (keys_Swap h i (min_child h i len)) (min_child h i len) len)"
  by (subst down_loop.simps) (simp add: Let_def min_child_def)

lemma min_child_props:
  assumes "2 * i + 1 < len" "len = length (elts h)"
  shows "min_child h i len < len" "i < min_child h i len" "parent (min_child h i len) = i"
    "\<And>c. c < len \<Longrightarrow> 0 < c \<Longrightarrow> parent c = i \<Longrightarrow> Element_le (elts h ! min_child h i len) (elts h ! c)"
proof -
  show "min_child h i len < len" "i < min_child h i len" "parent (min_child h i len) = i"
    using assms by (auto simp: min_child_def)
  fix c assume c: "c < len" "0 < c" "parent c = i"
  then consider "c = 2 * i + 1" | "c = 2 * i + 1 + 1" by arith
  then show "Element_le (elts h ! min_child h i len) (elts h ! c)"
  proof cases
    case 1
    show ?thesis unfolding 1 min_child_def keys_Less_def
      by (simp add: Element_le_refl Element_Less_le)
  next
    case 2
    show ?thesis using c(1) unfolding 2 min_child_def keys_Less_def
      by (simp add: Element_le_refl Element_le_def Element_Less_def)
  qed
qed


lemma down_step:
  assumes he: "heap_except (elts h) i" and c1: "2 * i + 1 < len" and len: "len = length (elts h)"
    and lt: "keys_Less h (min_child h i len) i"
  shows "heap_except (elts (keys_Swap h i (min_child h i len))) (min_child h i len)"
    and "parent_ok (elts (keys_Swap h i (min_child h i len))) (min_child h i len)"
proof -
  let ?es = "elts h"
  let ?j = "min_child h i len"
  note mc = min_child_props[OF c1 len]
  have lt': "Element_Less (?es ! ?j) (?es ! i)" using lt by (simp add: keys_Less_def)
  let ?es' = "?es[i := ?es ! ?j, ?j := ?es ! i]"
  have len': "length ?es' = length ?es" by simp
  have jl: "?j < length ?es" using mc(1) len by simp
  have il: "i < length ?es" using mc(2) jl by simp
  have ij: "i \<noteq> ?j" using mc(2) by simp
  have nth_i: "?es' ! i = ?es ! ?j" using ij il jl by simp
  have nth_j: "?es' ! ?j = ?es ! i" using jl by simp
  have nth_o: "\<And>c. c \<noteq> i \<Longrightarrow> c \<noteq> ?j \<Longrightarrow> ?es' ! c = ?es ! c" by simp
  have A: "heap_except ?es' ?j"
    unfolding heap_except_def len'
  proof (intro conjI allI impI)
    fix c assume c: "c < length ?es" "0 < c" "c \<noteq> ?j" "parent c \<noteq> ?j"
    show "Element_le (?es' ! parent c) (?es' ! c)"
    proof (cases "c = i")
      case True
      have pi: "parent i \<noteq> i" "parent i \<noteq> ?j" using c True mc(2) by arith+
      have "0 < ?j" using mc(2) by simp
      then have "Element_le (?es ! parent i) (?es ! ?j)"
        using he mc(3) jl c True unfolding heap_except_def by blast
      then show ?thesis using True nth_i nth_o[OF pi] by simp
    next
      case ci: False
      show ?thesis
      proof (cases "parent c = i")
        case True
        then show ?thesis using mc(4)[of c] c len nth_i nth_o[OF ci c(3)] by simp
      next
        case False
        then have "Element_le (?es ! parent c) (?es ! c)"
          using he c ci unfolding heap_except_def by blast
        then show ?thesis using nth_o[OF ci c(3)] nth_o[OF False c(4)] by simp
      qed
    qed
  next
    fix c assume c: "c < length ?es" "0 < c" "parent c = ?j" "0 < ?j"
    have cn: "c \<noteq> i" "c \<noteq> ?j" using c mc(2) by arith+
    have "parent c \<noteq> i" using c ij by simp
    then have "Element_le (?es ! ?j) (?es ! c)"
      using he c cn unfolding heap_except_def by metis
    then show "Element_le (?es' ! parent ?j) (?es' ! c)"
      using mc(3) nth_i nth_o[OF cn] by simp
  qed
  then show "heap_except (elts (keys_Swap h i ?j)) ?j" by simp
  have B: "parent_ok ?es' ?j"
    unfolding parent_ok_def using mc(3) nth_i nth_j Element_Less_le[OF lt'] by simp
  then show "parent_ok (elts (keys_Swap h i ?j)) ?j" by simp
qed

lemma down_noswap:
  assumes nl: "\<not> keys_Less h (min_child h i len) i" and c1: "2 * i + 1 < len"
    and len: "len = length (elts h)"
  shows "children_ok (elts h) i"
  unfolding children_ok_def
proof (intro allI impI)
  fix c assume c: "c < length (elts h)" "0 < c" "parent c = i"
  have "Element_le (elts h ! i) (elts h ! min_child h i len)"
    using nl by (simp add: keys_Less_def Element_le_def)
  then show "Element_le (elts h ! i) (elts h ! c)"
    using min_child_props(4)[OF c1 len, of c] c len by (auto intro: Element_le_trans)
qed

lemma no_children: "length es \<le> 2 * i + 1 \<Longrightarrow> children_ok es i"
  unfolding children_ok_def by (intro allI impI) arith

lemma down_loop_is_heap:
  "heap_except (elts h) i \<Longrightarrow> parent_ok (elts h) i \<Longrightarrow> len = length (elts h)
   \<Longrightarrow> is_heap (elts (fst (down_loop h i len)))"
proof (induction h i len rule: down_loop.induct)
  case (1 h i len)
  let ?j = "min_child h i len"
  have he: "heap_except (elts h) i" and po: "parent_ok (elts h) i"
    and len: "len = length (elts h)" by fact+
  show ?case
  proof (cases "2 * i + 1 \<ge> len")
    case True
    then show ?thesis
      using is_heapI_up[OF he no_children po] len by (subst down_loop_unfold) simp
  next
    case nl: False
    then have c1: "2 * i + 1 < len" by simp
    show ?thesis
    proof (cases "keys_Less h ?j i")
      case False
      then show ?thesis
        using is_heapI_up[OF he down_noswap[OF False c1 len] po] nl
        by (subst down_loop_unfold) simp
    next
      case True
      have "is_heap (elts (fst (down_loop (keys_Swap h i ?j) ?j len)))"
        using "1.IH"[OF refl _ refl] nl True down_step[OF he c1 len True] len
        by (simp add: min_child_def)
      then show ?thesis using True nl by (subst down_loop_unfold) simp
    qed
  qed
qed

lemma down_loop_snd_ge: "i \<le> snd (down_loop h i len)"
proof (induction h i len rule: down_loop.induct)
  case (1 h i len)
  show ?case
  proof (cases "2 * i + 1 < len \<and> keys_Less h (min_child h i len) i")
    case True
    then have "min_child h i len \<le> snd (down_loop (keys_Swap h i (min_child h i len)) (min_child h i len) len)"
      using "1.IH"[OF refl _ refl] by (simp add: min_child_def)
    moreover have "i < min_child h i len" by (simp add: min_child_def)
    ultimately show ?thesis using True by (subst down_loop_unfold) simp
  next
    case False
    then show ?thesis by (subst down_loop_unfold) auto
  qed
qed

lemma down_loop_unmoved:
  assumes "snd (down_loop h i len) = i" "len = length (elts h)"
  shows "fst (down_loop h i len) = h" "children_ok (elts h) i"
proof -
  have ns: "\<not> (2 * i + 1 < len \<and> keys_Less h (min_child h i len) i)"
  proof
    assume a: "2 * i + 1 < len \<and> keys_Less h (min_child h i len) i"
    have "i < min_child h i len" by (simp add: min_child_def)
    also have "\<dots> \<le> snd (down_loop (keys_Swap h i (min_child h i len)) (min_child h i len) len)"
      by (rule down_loop_snd_ge)
    also have "\<dots> = snd (down_loop h i len)" using a by (subst (2) down_loop_unfold) simp
    finally show False using assms(1) by simp
  qed
  then show "fst (down_loop h i len) = h" by (subst down_loop_unfold) auto
  show "children_ok (elts h) i"
  proof (cases "2 * i + 1 < len")
    case True
    then show ?thesis using ns down_noswap[OF _ True assms(2)] by simp
  next
    case False
    then show ?thesis using no_children assms(2) by simp
  qed
qed

lemma down_loop_moved:
  assumes "heap_except (elts h) i" "len = length (elts h)" "i < snd (down_loop h i len)"
  shows "is_heap (elts (fst (down_loop h i len)))"
proof -
  let ?j = "min_child h i len"
  have sw: "2 * i + 1 < len \<and> keys_Less h ?j i"
  proof (rule ccontr)
    assume "\<not> ?thesis"
    then have "down_loop h i len = (h, i)" by (subst down_loop_unfold) auto
    then show False using assms(3) by simp
  qed
  then have eq: "down_loop h i len = down_loop (keys_Swap h i ?j) ?j len"
    by (subst down_loop_unfold) simp
  have "is_heap (elts (fst (down_loop (keys_Swap h i ?j) ?j len)))"
    using down_step[OF assms(1) _ assms(2)] sw assms(2)
    by (intro down_loop_is_heap) simp_all
  then show ?thesis using eq by simp
qed

lemma length_heap_up [simp]: "length (elts (heap_up h j)) = length (elts h)"
proof (induction h j rule: heap_up.induct)
  case (1 h j)
  show ?case using 1 by (subst heap_up.simps) (simp add: Let_def)
qed

lemma length_down_loop [simp]: "length (elts (fst (down_loop h i len))) = length (elts h)"
proof (induction h i len rule: down_loop.induct)
  case (1 h i len)
  show ?case using 1 by (subst down_loop.simps) (simp add: Let_def)
qed

lemma heap_Fix_is_heap:
  assumes "heap_except (elts h) i" "i < length (elts h)"
  shows "is_heap (elts (heap_Fix h i))"
proof (cases "i < snd (down_loop h i (length (elts h)))")
  case True
  then show ?thesis
    using down_loop_moved[OF assms(1) refl True]
    by (simp add: heap_Fix_def heap_down_def keys_Len_def split_beta)
next
  case False
  then have eq: "snd (down_loop h i (length (elts h))) = i"
    using down_loop_snd_ge[of i h "length (elts h)"] by simp
  note um = down_loop_unmoved[OF eq refl]
  show ?thesis
    using heap_up_is_heap[OF assms(1) um(2) assms(2)] False um(1)
    by (simp add: heap_Fix_def heap_down_def keys_Len_def split_beta)
qed

lemma heap_Push_is_heap:
  assumes "is_heap (elts h)"
  shows "is_heap (elts (heap_Push h e))"
proof -
  let ?es = "elts h @ [e]"
  let ?j = "length (elts h)"
  have 1: "heap_except ?es ?j"
    unfolding heap_except_def
  proof (intro conjI allI impI)
    fix c assume c: "c < length ?es" "0 < c" "c \<noteq> ?j" "parent c \<noteq> ?j"
    then have "c < length (elts h)" by simp
    moreover then have "parent c < length (elts h)" by arith
    ultimately show "Element_le (?es ! parent c) (?es ! c)"
      using assms c by (simp add: is_heap_def nth_append)
  next
    fix c assume c: "c < length ?es" "0 < c" "parent c = ?j" "0 < ?j"
    then have False by simp
    then show "Element_le (?es ! parent ?j) (?es ! c)" ..
  qed
  have 2: "children_ok ?es ?j" by (rule no_children) simp
  show ?thesis
    using heap_up_is_heap[of "keys_Push h e" ?j] 1 2
    by (simp add: heap_Push_def keys_Push_def keys_Len_def Let_def)
qed

lemma index_ok_inj:
  assumes "index_ok tk" "i < length (elts tk)" "j < length (elts tk)"
    "Key (elts tk ! i) = Key (elts tk ! j)"
  shows "i = j"
proof -
  have "m tk (Key (elts tk ! i)) = Some (int i)" "m tk (Key (elts tk ! j)) = Some (int j)"
    using assms(1-3) by (simp_all add: index_ok_def)
  then show ?thesis using assms(4) by (metis option.inject of_nat_eq_iff)
qed

lemma index_ok_distinct: "index_ok tk \<Longrightarrow> distinct (map Key (elts tk))"
  by (auto simp: distinct_conv_nth dest: index_ok_inj)

lemma index_ok_lookup:
  assumes "index_ok tk" "m tk key = Some idx"
  shows "0 \<le> idx" "idx < int (length (elts tk))" "Key (elts tk ! nat idx) = key"
proof -
  have "key \<in> Key ` set (elts tk)" using assms by (auto simp: index_ok_def)
  then obtain i where i: "i < length (elts tk)" "key = Key (elts tk ! i)"
    by (auto simp: in_set_conv_nth)
  then have "m tk key = Some (int i)" using assms(1) by (simp add: index_ok_def)
  then have "idx = int i" using assms(2) by simp
  then show "0 \<le> idx" "idx < int (length (elts tk))" "Key (elts tk ! nat idx) = key"
    using i by simp_all
qed

lemma index_ok_None: "index_ok tk \<Longrightarrow> m tk key = None \<longleftrightarrow> key \<notin> Key ` set (elts tk)"
  by (auto simp: index_ok_def)

lemma m_Swap: "m (keys_Swap h i j) =
   ((m h)(Key ((elts h)[i := elts h ! j, j := elts h ! i] ! i) \<mapsto> int i))
      (Key ((elts h)[i := elts h ! j, j := elts h ! i] ! j) \<mapsto> int j)"
  by (simp add: keys_Swap_def Let_def)

lemma index_ok_Swap:
  assumes ok: "index_ok h" and il: "i < length (elts h)" and jl: "j < length (elts h)"
  shows "index_ok (keys_Swap h i j)"
proof (cases "i = j")
  case True
  have "m h (Key (elts h ! j)) = Some (int j)" using ok jl by (simp add: index_ok_def)
  then have "(m h)(Key (elts h ! j) \<mapsto> int j) = m h" by (rule map_upd_triv)
  then have "keys_Swap h i j = h" using True jl by (simp add: keys_Swap_def Let_def)
  then show ?thesis using ok by simp
next
  case False
  let ?es = "elts h"
  let ?es' = "?es[i := ?es ! j, j := ?es ! i]"
  have nth_i: "?es' ! i = ?es ! j" using False il jl by simp
  have nth_j: "?es' ! j = ?es ! i" using jl by simp
  have kij: "Key (?es ! i) \<noteq> Key (?es ! j)" using index_ok_inj[OF ok il jl] False by blast
  have m': "m (keys_Swap h i j) = ((m h)(Key (?es ! j) \<mapsto> int i))(Key (?es ! i) \<mapsto> int j)"
    unfolding m_Swap nth_i nth_j ..
  have set': "set ?es' = set ?es" using il jl by simp
  show ?thesis unfolding index_ok_def elts_Swap m'
  proof (intro conjI allI impI)
    fix p assume p: "p < length ?es'"
    then have pl: "p < length ?es" by simp
    have mp: "m h (Key (?es ! p)) = Some (int p)" using ok pl by (simp add: index_ok_def)
    show "((m h)(Key (?es ! j) \<mapsto> int i, Key (?es ! i) \<mapsto> int j)) (Key (?es' ! p)) = Some (int p)"
    proof (cases "p = j")
      case True then show ?thesis using nth_j by simp
    next
      case pj: False
      show ?thesis
      proof (cases "p = i")
        case True then show ?thesis using nth_i kij by simp
      next
        case pi: False
        have "Key (?es ! p) \<noteq> Key (?es ! i)" "Key (?es ! p) \<noteq> Key (?es ! j)"
          using index_ok_inj[OF ok pl il] index_ok_inj[OF ok pl jl] pi pj by blast+
        then show ?thesis using mp pi pj by simp
      qed
    qed
  next
    have "Key (?es ! i) \<in> Key ` set ?es" "Key (?es ! j) \<in> Key ` set ?es" using il jl by simp_all
    then show "dom ((m h)(Key (?es ! j) \<mapsto> int i, Key (?es ! i) \<mapsto> int j)) = Key ` set ?es'"
      using ok unfolding set' index_ok_def by auto
  qed
qed

lemma mset_Swap:
  "i < length (elts h) \<Longrightarrow> j < length (elts h) \<Longrightarrow> mset (elts (keys_Swap h i j)) = mset (elts h)"
  by (simp add: mset_swap)

lemma heap_up_preserves:
  "j < length (elts h) \<Longrightarrow>
     mset (elts (heap_up h j)) = mset (elts h) \<and> (index_ok h \<longrightarrow> index_ok (heap_up h j))"
proof (induction h j rule: heap_up.induct)
  case (1 h j)
  let ?i = "parent j"
  show ?case
  proof (cases "?i = j \<or> \<not> keys_Less h j ?i")
    case True
    then have "heap_up h j = h" by (subst heap_up.simps) (auto simp: Let_def)
    then show ?thesis by simp
  next
    case False
    have il: "?i < length (elts h)" using 1(2) by arith
    have eq: "heap_up h j = heap_up (keys_Swap h ?i j) ?i"
      using False by (subst heap_up.simps) (auto simp: Let_def)
    have "mset (elts (heap_up (keys_Swap h ?i j) ?i)) = mset (elts (keys_Swap h ?i j)) \<and>
      (index_ok (keys_Swap h ?i j) \<longrightarrow> index_ok (heap_up (keys_Swap h ?i j) ?i))"
      using "1.IH"[OF refl] False il by simp
    then show ?thesis unfolding eq using mset_Swap[OF il 1(2)] index_ok_Swap[OF _ il 1(2)] by simp
  qed
qed

lemma down_loop_preserves:
  "len = length (elts h) \<Longrightarrow>
     mset (elts (fst (down_loop h i len))) = mset (elts h) \<and>
     (index_ok h \<longrightarrow> index_ok (fst (down_loop h i len)))"
proof (induction h i len rule: down_loop.induct)
  case (1 h i len)
  let ?j = "min_child h i len"
  show ?case
  proof (cases "2 * i + 1 < len \<and> keys_Less h ?j i")
    case False
    then have "down_loop h i len = (h, i)" by (subst down_loop_unfold) auto
    then show ?thesis by simp
  next
    case True
    have jl: "?j < length (elts h)" and il: "i < length (elts h)"
      using True 1(2) by (auto simp: min_child_def)
    have eq: "down_loop h i len = down_loop (keys_Swap h i ?j) ?j len"
      using True by (subst down_loop_unfold) simp
    have "mset (elts (fst (down_loop (keys_Swap h i ?j) ?j len))) = mset (elts (keys_Swap h i ?j)) \<and>
      (index_ok (keys_Swap h i ?j) \<longrightarrow> index_ok (fst (down_loop (keys_Swap h i ?j) ?j len)))"
      using "1.IH"[OF refl _ refl] True 1(2) by (simp add: min_child_def)
    then show ?thesis unfolding eq using mset_Swap[OF il jl] index_ok_Swap[OF _ il jl] by simp
  qed
qed

lemma heap_Fix_preserves:
  assumes "i < length (elts h)"
  shows "mset (elts (heap_Fix h i)) = mset (elts h)" "index_ok h \<Longrightarrow> index_ok (heap_Fix h i)"
proof -
  obtain h' i' where d: "down_loop h i (length (elts h)) = (h', i')" by (cases "down_loop h i (length (elts h))")
  have p: "mset (elts h') = mset (elts h)" "index_ok h \<longrightarrow> index_ok h'"
    using down_loop_preserves[OF refl, of h i] d by simp_all
  have l: "length (elts h') = length (elts h)" using length_down_loop[of h i "length (elts h)"] d by simp
  have q: "mset (elts (heap_up h' i)) = mset (elts h')" "index_ok h' \<longrightarrow> index_ok (heap_up h' i)"
    using heap_up_preserves[of i h'] assms l by simp_all
  show "mset (elts (heap_Fix h i)) = mset (elts h)" "index_ok h \<Longrightarrow> index_ok (heap_Fix h i)"
    using p q d by (simp_all add: heap_Fix_def heap_down_def keys_Len_def)
qed

lemma heap_Push_preserves:
  shows "mset (elts (heap_Push h e)) = add_mset e (mset (elts h))"
    "index_ok h \<Longrightarrow> Key e \<notin> Key ` set (elts h) \<Longrightarrow> index_ok (heap_Push h e)"
proof -
  let ?h1 = "keys_Push h e"
  have l: "length (elts h) < length (elts ?h1)" by (simp add: keys_Push_def)
  note hp = heap_up_preserves[OF l]
  show "mset (elts (heap_Push h e)) = add_mset e (mset (elts h))"
    using hp by (simp add: heap_Push_def keys_Len_def Let_def) (simp add: keys_Push_def)
  assume ok: "index_ok h" and fresh: "Key e \<notin> Key ` set (elts h)"
  have "index_ok ?h1"
    unfolding index_ok_def
  proof (intro conjI allI impI)
    fix i assume "i < length (elts ?h1)"
    then have "i < length (elts h) \<or> i = length (elts h)" by (auto simp: keys_Push_def)
    then show "m ?h1 (Key (elts ?h1 ! i)) = Some (int i)"
    proof
      assume i: "i < length (elts h)"
      then have "Key (elts h ! i) \<noteq> Key e" using fresh by (metis image_eqI nth_mem)
      then show ?thesis using ok i by (simp add: keys_Push_def nth_append index_ok_def)
    next
      assume "i = length (elts h)"
      then show ?thesis by (simp add: keys_Push_def)
    qed
  next
    show "dom (m ?h1) = Key ` set (elts ?h1)" using ok by (auto simp: keys_Push_def index_ok_def)
  qed
  then show "index_ok (heap_Push h e)"
    using hp by (simp add: heap_Push_def keys_Len_def Let_def) (simp add: keys_Push_def)
qed



section \<open>Insert keeps the invariants\<close>

lemma is_heap_root_le:
  "is_heap es \<Longrightarrow> c < length es \<Longrightarrow> Element_le (es ! 0) (es ! c)"
proof (induction c rule: less_induct)
  case (less c)
  show ?case
  proof (cases "c = 0")
    case True then show ?thesis by (simp add: Element_le_refl)
  next
    case False
    then have pc: "parent c < c" by arith
    have "Element_le (es ! parent c) (es ! c)" using less.prems False by (simp add: is_heap_def)
    moreover have "Element_le (es ! 0) (es ! parent c)" using less.IH[OF pc less.prems(1)] pc less.prems(2) by simp
    ultimately show ?thesis using Element_le_trans by blast
  qed
qed

lemma Element_le_Count: "Element_le a b \<Longrightarrow> Count a \<le> Count b"
  by (auto simp: Element_le_def Element_Less_def)

lemma is_heap_root_min:
  assumes "is_heap es" "e \<in> set es"
  shows "Count (es ! 0) \<le> Count e"
proof -
  obtain c where "c < length es" "e = es ! c" using assms(2) by (auto simp: in_set_conv_nth)
  then show ?thesis using is_heap_root_le[OF assms(1)] Element_le_Count by blast
qed

lemma is_heap_Nil [simp]: "is_heap []" by (simp add: is_heap_def)
lemma index_ok_empty [simp]: "index_ok \<lparr>m = Map.empty, elts = []\<rparr>" by (simp add: index_ok_def)

lemma wf_New:
  assumes "1 \<le> sz"
  shows "\<exists>s. New sz = Inr s \<and> stream_inv s \<and> n s = sz \<and> elts (k s) = [] \<and> set (alphas s) \<subseteq> {0}"
  using assms by (auto simp: New_def stream_inv_def bufMultiplier_def)

lemma wf_alphas_nonempty: "stream_inv s \<Longrightarrow> alphas s \<noteq> []"
  by (auto simp: stream_inv_def bufMultiplier_def)

lemma wf_bucket: "stream_inv s \<Longrightarrow> bucket hash s x < length (alphas s)"
  by (simp add: bucket_bound wf_alphas_nonempty)

lemma index_ok_update_same_key:
  assumes "index_ok tk" "i < length (elts tk)" "Key e = Key (elts tk ! i)"
  shows "index_ok (tk\<lparr>elts := (elts tk)[i := e]\<rparr>)"
proof -
  have "map Key ((elts tk)[i := e]) = map Key (elts tk)"
    using assms(2,3) by (simp add: map_update list_update_same_conv)
  then have eq: "\<And>j. j < length (elts tk) \<Longrightarrow> Key ((elts tk)[i := e] ! j) = Key (elts tk ! j)"
    and st: "Key ` set ((elts tk)[i := e]) = Key ` set (elts tk)"
    by (metis length_list_update nth_map, metis set_map)
  show ?thesis using assms(1) unfolding index_ok_def by (simp add: eq st)
qed

lemma index_ok_replace_root:
  assumes ok: "index_ok tk" and ne: "elts tk \<noteq> []" and fresh: "m tk x = None" and kx: "Key e = x"
  shows "index_ok \<lparr>m = ((m tk)(Key (elts tk ! 0) := None))(x \<mapsto> 0), elts = (elts tk)[0 := e]\<rparr>"
    and "Key ` set ((elts tk)[0 := e]) = insert x (Key ` set (elts tk) - {Key (elts tk ! 0)})"
proof -
  obtain r rest where es: "elts tk = r # rest" using ne by (cases "elts tk") auto
  have dist: "Key r \<notin> Key ` set rest" using index_ok_distinct[OF ok] es by simp
  have xk: "x \<notin> Key ` set (r # rest)" using fresh ok es by (simp add: index_ok_None)
  show 2: "Key ` set ((elts tk)[0 := e]) = insert x (Key ` set (elts tk) - {Key (elts tk ! 0)})"
    using dist kx by (auto simp: es)
  show "index_ok \<lparr>m = ((m tk)(Key (elts tk ! 0) := None))(x \<mapsto> 0), elts = (elts tk)[0 := e]\<rparr>"
    unfolding index_ok_def
  proof (intro conjI allI impI)
    fix i assume "i < length (elts \<lparr>m = ((m tk)(Key (elts tk ! 0) := None))(x \<mapsto> 0), elts = (elts tk)[0 := e]\<rparr>)"
    then have il: "i < length (r # rest)" by (simp add: es)
    show "m \<lparr>m = ((m tk)(Key (elts tk ! 0) := None))(x \<mapsto> 0), elts = (elts tk)[0 := e]\<rparr>
            (Key (elts \<lparr>m = ((m tk)(Key (elts tk ! 0) := None))(x \<mapsto> 0), elts = (elts tk)[0 := e]\<rparr> ! i)) = Some (int i)"
    proof (cases i)
      case 0 then show ?thesis using kx by (simp add: es)
    next
      case (Suc j)
      then have j: "j < length rest" using il by simp
      then have "Key (rest ! j) \<in> Key ` set rest" by simp
      then have "Key (rest ! j) \<noteq> Key r" "Key (rest ! j) \<noteq> x" using dist xk by auto
      moreover have "m tk (Key (rest ! j)) = Some (int (Suc j))"
        using ok il Suc unfolding index_ok_def es by (metis nth_Cons_Suc)
      ultimately show ?thesis using Suc by (simp add: es)
    qed
  next
    have "dom (m tk) = Key ` set (r # rest)" using ok es by (simp add: index_ok_def)
    then show "dom (m \<lparr>m = ((m tk)(Key (elts tk ! 0) := None))(x \<mapsto> 0), elts = (elts tk)[0 := e]\<rparr>)
       = Key ` set (elts \<lparr>m = ((m tk)(Key (elts tk ! 0) := None))(x \<mapsto> 0), elts = (elts tk)[0 := e]\<rparr>)"
      using dist kx by (auto simp: es)
  qed
qed

lemma wf_full_nonempty:
  assumes "stream_inv s" "\<not> int (length (elts (k s))) < n s * bufMultiplier"
  shows "elts (k s) \<noteq> []" "int (length (elts (k s))) = n s * bufMultiplier"
  using assms by (auto simp: stream_inv_def bufMultiplier_def)

lemma Insert_tracked:
  fixes s :: Stream and x :: string and w :: int and hash :: "string \<Rightarrow> 64 word"
  assumes wf: "stream_inv s" and tr: "m (k s) x = Some idx"
  defines "i \<equiv> nat idx"
  defines "e \<equiv> (elts (k s) ! i)\<lparr>Count := int64_add (Count (elts (k s) ! i)) w\<rparr>"
  defines "s' \<equiv> s\<lparr>k := heap_Fix ((k s)\<lparr>elts := (elts (k s))[i := e]\<rparr>) i\<rparr>"
  shows "Insert hash s x w = Inr (e, s')" "i < length (elts (k s))" "Key (elts (k s) ! i) = x"
    "stream_inv s'" "mset (elts (k s')) = mset ((elts (k s))[i := e])"
proof -
  have ok: "index_ok (k s)" and hp: "is_heap (elts (k s))" using wf by (simp_all add: stream_inv_def)
  note lk = index_ok_lookup[OF ok tr]
  show il: "i < length (elts (k s))" using lk by (simp add: i_def)
  show kx: "Key (elts (k s) ! i) = x" using lk by (simp add: i_def)
  show "Insert hash s x w = Inr (e, s')"
    using tr lk by (simp add: Insert_def Let_def e_def s'_def i_def)
  let ?k1 = "(k s)\<lparr>elts := (elts (k s))[i := e]\<rparr>"
  have il1: "i < length (elts ?k1)" using il by simp
  have ok1: "index_ok ?k1" using index_ok_update_same_key[OF ok il, of e] by (simp add: e_def)
  have he: "heap_except (elts ?k1) i" using heap_exceptI_update[OF hp il] by simp
  note fp = heap_Fix_preserves[OF il1]
  show ms: "mset (elts (k s')) = mset ((elts (k s))[i := e])" using fp(1) by (simp add: s'_def)
  have "length (elts (k s')) = length (elts (k s))" using ms by (metis length_list_update size_mset)
  then show "stream_inv s'"
    using wf fp(2)[OF ok1] heap_Fix_is_heap[OF he il1] by (simp add: stream_inv_def s'_def)
qed

lemma Insert_free:
  fixes s :: Stream and x :: string and w :: int and hash :: "string \<Rightarrow> 64 word"
  assumes wf: "stream_inv s" and un: "m (k s) x = None"
    and fr: "int (length (elts (k s))) < n s * bufMultiplier"
  defines "e \<equiv> \<lparr>Key = x, Count = w, Error = 0\<rparr>"
  defines "s' \<equiv> s\<lparr>k := heap_Push (k s) e\<rparr>"
  shows "Insert hash s x w = Inr (e, s')" "stream_inv s'" "mset (elts (k s')) = add_mset e (mset (elts (k s)))"
proof -
  have ok: "index_ok (k s)" and hp: "is_heap (elts (k s))" using wf by (simp_all add: stream_inv_def)
  show "Insert hash s x w = Inr (e, s')"
    using un fr by (simp add: Insert_def Let_def e_def s'_def)
  have fresh: "Key e \<notin> Key ` set (elts (k s))" using un ok by (simp add: index_ok_None e_def)
  note pp = heap_Push_preserves[of "k s" e]
  show ms: "mset (elts (k s')) = add_mset e (mset (elts (k s)))" using pp(1) by (simp add: s'_def)
  have "length (elts (k s')) = Suc (length (elts (k s)))" using ms by (metis size_add_mset size_mset)
  then show "stream_inv s'"
    using wf fr pp(2)[OF ok fresh] heap_Push_is_heap[OF hp, of e] by (simp add: stream_inv_def s'_def)
qed

lemma Insert_filter:
  fixes s :: Stream and x :: string and w :: int and hash :: "string \<Rightarrow> 64 word"
  assumes wf: "stream_inv s" and un: "m (k s) x = None"
    and fu: "\<not> int (length (elts (k s))) < n s * bufMultiplier"
    and lt: "int64_add (alphas s ! bucket hash s x) w < Count (elts (k s) ! 0)"
  defines "e \<equiv> \<lparr>Key = x, Count = int64_add (alphas s ! bucket hash s x) w,
               Error = alphas s ! bucket hash s x\<rparr>"
  defines "s' \<equiv> s\<lparr>alphas := (alphas s)[bucket hash s x := int64_add (alphas s ! bucket hash s x) w]\<rparr>"
  shows "Insert hash s x w = Inr (e, s')" "stream_inv s'"
proof -
  show "Insert hash s x w = Inr (e, s')"
    using un fu lt wf_bucket[OF wf, of hash x] wf_full_nonempty[OF wf fu]
    by (simp add: Insert_def Let_def e_def s'_def)
  show "stream_inv s'" using wf by (simp add: stream_inv_def s'_def)
qed

lemma Insert_evict:
  fixes s :: Stream and x :: string and w :: int and hash :: "string \<Rightarrow> 64 word"
  assumes wf: "stream_inv s" and un: "m (k s) x = None"
    and fu: "\<not> int (length (elts (k s))) < n s * bufMultiplier"
    and ge: "\<not> int64_add (alphas s ! bucket hash s x) w < Count (elts (k s) ! 0)"
  defines "minElement \<equiv> elts (k s) ! 0"
  defines "alphas1 \<equiv> (alphas s)[bucket hash s (Key minElement) := Count minElement]"
  defines "e \<equiv> \<lparr>Key = x, Count = int64_add (alphas1 ! bucket hash s x) w,
               Error = alphas1 ! bucket hash s x\<rparr>"
  defines "k1 \<equiv> \<lparr>m = ((m (k s))(Key minElement := None))(x \<mapsto> 0), elts = (elts (k s))[0 := e]\<rparr>"
  defines "s' \<equiv> s\<lparr>k := heap_Fix k1 0, alphas := alphas1\<rparr>"
  shows "Insert hash s x w = Inr (e, s')" "stream_inv s'" "mset (elts (k s')) = mset ((elts (k s))[0 := e])"
    "index_ok k1"
proof -
  have ok: "index_ok (k s)" and hp: "is_heap (elts (k s))" using wf by (simp_all add: stream_inv_def)
  note ne = wf_full_nonempty[OF wf fu]
  show "Insert hash s x w = Inr (e, s')"
    using un fu ge wf_bucket[OF wf, of hash x] wf_bucket[OF wf, of hash "Key (elts (k s) ! 0)"] ne
    by (simp add: Insert_def Let_def e_def s'_def k1_def alphas1_def minElement_def)
  have l0: "0 < length (elts (k s))" using ne by simp
  have il1: "0 < length (elts k1)" using l0 by (simp add: k1_def)
  show ok1: "index_ok k1"
    using index_ok_replace_root(1)[OF ok ne(1) un, of e] by (simp add: k1_def e_def minElement_def)
  have he: "heap_except (elts k1) 0" using heap_exceptI_update[OF hp l0] by (simp add: k1_def)
  note fp = heap_Fix_preserves[OF il1]
  show ms: "mset (elts (k s')) = mset ((elts (k s))[0 := e])" using fp(1) by (simp add: s'_def k1_def)
  have "length (elts (k s')) = length (elts (k s))" using ms by (metis length_list_update size_mset)
  then show "stream_inv s'"
    using wf fp(2)[OF ok1] heap_Fix_is_heap[OF he il1] by (simp add: stream_inv_def s'_def alphas1_def)
qed

lemma Insert_wf:
  assumes "stream_inv s"
  shows "\<exists>e s'. Insert hash s x w = Inr (e, s') \<and> stream_inv s'"
proof (cases "m (k s) x")
  case (Some idx)
  show ?thesis using Insert_tracked(1,4)[OF assms Some] by blast
next
  case None
  show ?thesis
  proof (cases "int (length (elts (k s))) < n s * bufMultiplier")
    case True
    show ?thesis using Insert_free(1,2)[OF assms None True] by blast
  next
    case False
    show ?thesis
    proof (cases "int64_add (alphas s ! bucket hash s x) w < Count (elts (k s) ! 0)")
      case True
      show ?thesis using Insert_filter[OF assms None False True] by blast
    next
      case F: False
      show ?thesis using Insert_evict(1,2)[OF assms None False F] by blast
    qed
  qed
qed

lemma Insert_wf_Inr: "stream_inv s \<Longrightarrow> Insert hash s x w = Inr (e, s') \<Longrightarrow> stream_inv s'"
  using Insert_wf[of s hash x w] by auto

lemma in_set_updateD:
  assumes "y \<in> set (xs[i := v])" "i < length xs"
  shows "y = v \<or> (\<exists>j < length xs. j \<noteq> i \<and> y = xs ! j)"
proof -
  obtain j where j: "j < length xs" "y = xs[i := v] ! j"
    using assms(1) by (auto simp: in_set_conv_nth)
  show ?thesis
  proof (cases "j = i")
    case True then show ?thesis using j assms(2) by simp
  next
    case False then show ?thesis using j by auto
  qed
qed


lemma mset_eq_set: "mset xs = mset ys \<Longrightarrow> set xs = set ys"
  by (rule mset_eq_setD)

lemma int64_wrap_id: "- (2 ^ 63) \<le> x \<Longrightarrow> x < 2 ^ 63 \<Longrightarrow> int64_wrap x = x"
  by (simp add: int64_wrap_def)

lemma int64_wrap_range: "- (2 ^ 63) \<le> int64_wrap x \<and> int64_wrap x < 2 ^ 63"
proof -
  have "0 \<le> (x + 2 ^ 63) mod 2 ^ 64" "(x + 2 ^ 63) mod 2 ^ 64 < (2 ^ 64 :: int)" by simp_all
  then show ?thesis by (simp add: int64_wrap_def)
qed












section \<open>Sorting and Keys\<close>

lemma mset_insert_by [simp]: "mset (insert_by lt x ys) = add_mset x (mset ys)"
  by (induction ys) simp_all

lemma mset_sort_Sort [simp]: "mset (sort_Sort lt xs) = mset xs"
  by (induction xs) simp_all


lemma length_sort_Sort [simp]: "length (sort_Sort lt xs) = length xs"
  using mset_sort_Sort[of lt xs] by (metis size_mset)

lemma set_insert_by [simp]: "set (insert_by lt x ys) = insert x (set ys)"
  using mset_insert_by[of lt x ys] by (metis set_mset_add_mset_insert set_mset_mset)

lemma ordered_insert_by:
  assumes asym: "\<And>a b. lt a b \<Longrightarrow> \<not> lt b a"
    and trans: "\<And>a b c. \<not> lt b a \<Longrightarrow> \<not> lt c b \<Longrightarrow> \<not> lt c a"
  shows "ordered_by lt ys \<Longrightarrow> ordered_by lt (insert_by lt x ys)"
proof (induction ys)
  case Nil then show ?case by (simp add: ordered_by_def)
next
  case (Cons y ys)
  show ?case
  proof (cases "lt y x")
    case True
    then have "\<not> lt x y" by (rule asym)
    then show ?thesis using Cons True by (auto simp: ordered_by_def)
  next
    case False
    have "\<forall>b \<in> set ys. \<not> lt b x"
    proof
      fix b assume "b \<in> set ys"
      then have "\<not> lt b y" using Cons.prems by (auto simp: ordered_by_def)
      then show "\<not> lt b x" using trans[OF False] by blast
    qed
    then show ?thesis using Cons.prems False by (auto simp: ordered_by_def)
  qed
qed

lemma ordered_sort_Sort:
  assumes asym: "\<And>a b. lt a b \<Longrightarrow> \<not> lt b a"
    and trans: "\<And>a b c. \<not> lt b a \<Longrightarrow> \<not> lt c b \<Longrightarrow> \<not> lt c a"
  shows "ordered_by lt (sort_Sort lt xs)"
proof (induction xs)
  case Nil then show ?case by (simp add: ordered_by_def)
next
  case (Cons x xs)
  then show ?case using ordered_insert_by[of lt, OF asym trans] by simp
qed

lemma byCount_asym:
  "elementsByCountDescending_Less a b \<Longrightarrow> \<not> elementsByCountDescending_Less b a"
  by (auto simp: elementsByCountDescending_Less_def)

lemma byCount_trans:
  "\<not> elementsByCountDescending_Less b a \<Longrightarrow> \<not> elementsByCountDescending_Less c b
   \<Longrightarrow> \<not> elementsByCountDescending_Less c a"
  by (auto simp: elementsByCountDescending_Less_def)

lemma byCount_total:
  "Key a \<noteq> Key b \<Longrightarrow> elementsByCountDescending_Less a b \<or> elementsByCountDescending_Less b a"
  by (auto simp: elementsByCountDescending_Less_def)

lemma ordered_Keys_sort: "ordered_by elementsByCountDescending_Less (sort_Sort elementsByCountDescending_Less xs)"
  using byCount_asym byCount_trans by (rule ordered_sort_Sort)

lemma sorted_by_unique:
  assumes tot: "\<And>a b. a \<in> set xs \<Longrightarrow> b \<in> set xs \<Longrightarrow> a \<noteq> b \<Longrightarrow> lt a b \<or> lt b a"
  shows "ordered_by lt xs \<Longrightarrow> ordered_by lt ys \<Longrightarrow> mset xs = mset ys \<Longrightarrow> xs = ys"
  using tot
proof (induction xs arbitrary: ys)
  case Nil then show ?case by simp
next
  case (Cons x xs)
  then obtain y ys' where ys: "ys = y # ys'" by (cases ys) auto
  have seq: "set (x # xs) = set (y # ys')" using Cons.prems(3) ys by (metis mset_eq_setD)
  have xy: "x = y"
  proof (rule ccontr)
    assume ne: "x \<noteq> y"
    then have m: "y \<in> set xs" "x \<in> set ys'" using seq by auto
    then have "\<not> lt y x" "\<not> lt x y" using Cons.prems(1,2) ys by (auto simp: ordered_by_def)
    moreover have "lt x y \<or> lt y x" using Cons.prems(4)[of x y] ne m(1) by simp
    ultimately show False by blast
  qed
  have "xs = ys'"
  proof (rule Cons.IH)
    show "ordered_by lt xs" "ordered_by lt ys'" using Cons.prems(1,2) ys by (auto simp: ordered_by_def)
    show "mset xs = mset ys'" using Cons.prems(3) ys xy by simp
    show "\<And>a b. a \<in> set xs \<Longrightarrow> b \<in> set xs \<Longrightarrow> a \<noteq> b \<Longrightarrow> lt a b \<or> lt b a"
      using Cons.prems(4) by simp
  qed
  then show ?case using xy ys by simp
qed

lemma sort_Sort_unique:
  assumes "distinct (map Key xs)" "ordered_by elementsByCountDescending_Less ys" "mset ys = mset xs"
  shows "ys = sort_Sort elementsByCountDescending_Less xs"
proof (rule sorted_by_unique[OF _ assms(2) ordered_Keys_sort])
  show "mset ys = mset (sort_Sort elementsByCountDescending_Less xs)" using assms(3) by simp
  fix a b assume "a \<in> set ys" "b \<in> set ys" "a \<noteq> b"
  then have "a \<in> set xs" "b \<in> set xs" using assms(3) by (metis mset_eq_setD)+
  then have "Key a \<noteq> Key b" using assms(1) \<open>a \<noteq> b\<close> by (meson distinct_map inj_onD)
  then show "elementsByCountDescending_Less a b \<or> elementsByCountDescending_Less b a"
    by (rule byCount_total)
qed

lemma ordered_by_take: "ordered_by lt xs \<Longrightarrow> ordered_by lt (take j xs)"
  unfolding ordered_by_def by (metis append_take_drop_id sorted_wrt_append)

lemma ordered_by_nth:
  "ordered_by lt xs \<Longrightarrow> i < j \<Longrightarrow> j < length xs \<Longrightarrow> \<not> lt (xs ! j) (xs ! i)"
  unfolding ordered_by_def by (simp add: sorted_wrt_iff_nth_less)

lemma Keys_eq:
  "0 \<le> n s \<Longrightarrow>
   Keys s = Inr (take (nat (n s)) (sort_Sort elementsByCountDescending_Less (elts (k s))), s)"
  by (simp add: Keys_def Let_def)

text \<open>
  C6. \<^verbatim>\<open>Keys\<close> returns the first \<open>n\<close> entries (all of them when there are fewer) of
  the monitored elements rearranged in the order of \<^verbatim>\<open>elementsByCountDescending\<close>:
  \<open>Count\<close> descending, and \<open>Key\<close> ascending among equal counts. The stream it
  returns with them is the stream it was given. A stream has \<open>0 \<le> n\<close>: \<^verbatim>\<open>New\<close>
  panics on a negative size, and on such a stream \<^verbatim>\<open>elts[:s.n]\<close> panics.
\<close>

theorem Keys_sorted_truncated:
  assumes "0 \<le> n s"
  shows "\<exists>es. Keys s = Inr (es, s) \<and>
           es = take (nat (n s)) (sort_Sort elementsByCountDescending_Less (elts (k s))) \<and>
           mset (sort_Sort elementsByCountDescending_Less (elts (k s))) = mset (elts (k s)) \<and>
           ordered_by elementsByCountDescending_Less
             (sort_Sort elementsByCountDescending_Less (elts (k s))) \<and>
           length es = min (nat (n s)) (length (elts (k s))) \<and>
           (\<forall>i j. i < j \<and> j < length es \<longrightarrow>
              Count (es ! j) < Count (es ! i) \<or>
              (Count (es ! j) = Count (es ! i) \<and> Key (es ! i) \<le> Key (es ! j)))"
proof -
  let ?srt = "sort_Sort elementsByCountDescending_Less (elts (k s))"
  let ?es = "take (nat (n s)) ?srt"
  have o: "ordered_by elementsByCountDescending_Less ?es"
    using ordered_Keys_sort by (rule ordered_by_take)
  have "Count (?es ! j) < Count (?es ! i) \<or>
        (Count (?es ! j) = Count (?es ! i) \<and> Key (?es ! i) \<le> Key (?es ! j))"
    if "i < j \<and> j < length ?es" for i j
    using ordered_by_nth[OF o, of i j] that
    by (auto simp: elementsByCountDescending_Less_def not_less)
  then show ?thesis
    using Keys_eq[OF assms] ordered_Keys_sort[of "elts (k s)"] by simp
qed

theorem Keys_sorted_truncated_witness:
  "(0::int) \<le> 2 \<and>
   Keys \<lparr>n = 2, k = \<lparr>m = [''d'' \<mapsto> 0, ''a'' \<mapsto> 1, ''c'' \<mapsto> 2, ''b'' \<mapsto> 3],
                     elts = [\<lparr>Key = ''d'', Count = 2, Error = 0\<rparr>, \<lparr>Key = ''a'', Count = 5, Error = 0\<rparr>,
                             \<lparr>Key = ''c'', Count = 7, Error = 1\<rparr>, \<lparr>Key = ''b'', Count = 5, Error = 2\<rparr>]\<rparr>,
           alphas = []\<rparr>
   = Inr ([\<lparr>Key = ''c'', Count = 7, Error = 1\<rparr>, \<lparr>Key = ''a'', Count = 5, Error = 0\<rparr>],
          \<lparr>n = 2, k = \<lparr>m = [''d'' \<mapsto> 0, ''a'' \<mapsto> 1, ''c'' \<mapsto> 2, ''b'' \<mapsto> 3],
                     elts = [\<lparr>Key = ''d'', Count = 2, Error = 0\<rparr>, \<lparr>Key = ''a'', Count = 5, Error = 0\<rparr>,
                             \<lparr>Key = ''c'', Count = 7, Error = 1\<rparr>, \<lparr>Key = ''b'', Count = 5, Error = 2\<rparr>]\<rparr>,
           alphas = []\<rparr>)"
  using Keys_sorted_truncated [of
      "\<lparr>n = 2, k = \<lparr>m = [''d'' \<mapsto> 0, ''a'' \<mapsto> 1, ''c'' \<mapsto> 2, ''b'' \<mapsto> 3],
                     elts = [\<lparr>Key = ''d'', Count = 2, Error = 0\<rparr>, \<lparr>Key = ''a'', Count = 5, Error = 0\<rparr>,
                             \<lparr>Key = ''c'', Count = 7, Error = 1\<rparr>, \<lparr>Key = ''b'', Count = 5, Error = 2\<rparr>]\<rparr>,
           alphas = []\<rparr>"]
  by (simp add: elementsByCountDescending_Less_def)

section \<open>The Space-Saving bounds\<close>

lemma Insert_n:
  "Insert hash s x w = Inr (e, s') \<Longrightarrow> n s' = n s \<and> length (alphas s') = length (alphas s)"
  unfolding Insert_def Let_def
  by (auto split: option.splits if_splits)







section \<open>Merge and the reachable streams\<close>

lemma Count_update_le:
  assumes "i < length es" "Count (es ! i) \<le> Count v" "e \<in> set (es[i := v])" "\<forall>e' \<in> set es. c \<le> Count e'"
  shows "c \<le> Count e"
proof -
  consider "e = v" | j where "j < length es" "j \<noteq> i" "e = es ! j"
    using in_set_updateD[OF assms(3,1)] by blast
  then show ?thesis
  proof cases
    case 1
    have "c \<le> Count (es ! i)" using assms(1,4) by simp
    then show ?thesis using assms(2) 1 by simp
  next
    case (2 j) then show ?thesis using assms(4) by simp
  qed
qed

lemma int64_add_ge:
  assumes "0 \<le> w" "c + w < 2 ^ 63"
  shows "c \<le> int64_add c w"
proof (cases "- (2 ^ 63) \<le> c + w")
  case True
  then show ?thesis using assms by (simp add: int64_add_def int64_wrap_id)
next
  case False
  then have "c + w < int64_wrap (c + w)" using int64_wrap_range[of "c + w"] by simp
  then show ?thesis using assms(1) by (simp add: int64_add_def)
qed

lemma Insert_min_monotone:
  assumes wf: "stream_inv s" and w0: "0 \<le> w"
    and full: "int (length (elts (k s))) = n s * bufMultiplier"
    and nov: "\<forall>e' \<in> set (elts (k s)). Count e' + w < 2 ^ 63"
    and ins: "Insert hash s x w = Inr (e, s')"
  shows "int (length (elts (k s'))) = n s' * bufMultiplier"
    and "Count (elts (k s) ! 0) \<le> Count (elts (k s') ! 0)"
    and "\<forall>e' \<in> set (elts (k s')). Count (elts (k s) ! 0) \<le> Count e'"
proof -
  have hp: "is_heap (elts (k s))" using wf by (simp add: stream_inv_def)
  have fu: "\<not> int (length (elts (k s))) < n s * bufMultiplier" using full by simp
  note ne = wf_full_nonempty[OF wf fu]
  have l0: "0 < length (elts (k s))" using ne by simp
  have rm: "\<forall>e' \<in> set (elts (k s)). Count (elts (k s) ! 0) \<le> Count e'"
    using is_heap_root_min[OF hp] by blast
  have ns: "n s' = n s" using Insert_n[OF ins] by simp
  have main: "length (elts (k s')) = length (elts (k s)) \<and>
              (\<forall>e' \<in> set (elts (k s')). Count (elts (k s) ! 0) \<le> Count e')"
  proof (cases "m (k s) x")
    case (Some idx)
    note it = Insert_tracked(1)[OF wf Some, where hash=hash and w=w]
      Insert_tracked(2)[OF wf Some] Insert_tracked(5)[OF wf Some, where w=w]
    let ?i = "nat idx"
    let ?e = "(elts (k s) ! ?i)\<lparr>Count := int64_add (Count (elts (k s) ! ?i)) w\<rparr>"
    have ms: "mset (elts (k s')) = mset ((elts (k s))[?i := ?e])" using it(1,3) ins by simp
    have "Count (elts (k s) ! ?i) + w < 2 ^ 63" using nov it(2) by simp
    then have "Count (elts (k s) ! ?i) \<le> Count ?e" using int64_add_ge[OF w0] by simp
    then have "\<forall>e' \<in> set ((elts (k s))[?i := ?e]). Count (elts (k s) ! 0) \<le> Count e'"
      using Count_update_le[OF it(2), of ?e _ "Count (elts (k s) ! 0)"] rm by blast
    then show ?thesis using ms by (metis length_list_update size_mset mset_eq_setD)
  next
    case None
    show ?thesis
    proof (cases "int64_add (alphas s ! bucket hash s x) w < Count (elts (k s) ! 0)")
      case True
      have "k s' = k s" using Insert_filter(1)[OF wf None fu True] ins by simp
      then show ?thesis using rm by simp
    next
      case False
      note ie = Insert_evict(1,3)[OF wf None fu False]
      let ?r = "elts (k s) ! 0"
      let ?al = "(alphas s)[bucket hash s (Key ?r) := Count ?r]"
      let ?e = "\<lparr>Key = x, Count = int64_add (?al ! bucket hash s x) w, Error = ?al ! bucket hash s x\<rparr>"
      have e: "e = ?e" and ms: "mset (elts (k s')) = mset ((elts (k s))[0 := ?e])"
        using ie ins by auto
      have ce: "Count ?r \<le> Count ?e"
      proof (cases "bucket hash s x = bucket hash s (Key ?r)")
        case True
        have "Count ?r + w < 2 ^ 63" using nov l0 by simp
        then show ?thesis using True wf_bucket[OF wf] int64_add_ge[OF w0] by simp
      next
        case F: False then show ?thesis using False by simp
      qed
      have "\<forall>e' \<in> set ((elts (k s))[0 := ?e]). Count ?r \<le> Count e'"
        using Count_update_le[OF l0 ce] rm by blast
      then show ?thesis using ms by (metis length_list_update size_mset mset_eq_setD)
    qed
  qed
  show "int (length (elts (k s'))) = n s' * bufMultiplier" using main full ns by simp
  show "\<forall>e' \<in> set (elts (k s')). Count (elts (k s) ! 0) \<le> Count e'" using main by simp
  then show "Count (elts (k s) ! 0) \<le> Count (elts (k s') ! 0)" using main l0 by simp
qed

lemma merge_key_wf:
  assumes "stream_inv s" "stream_inv other" "n s = n other"
  shows "merge_key hash s other key = Inr None \<or>
         (\<exists>e. merge_key hash s other key = Inr (Some e) \<and> Key e = key)"
proof -
  have l: "length (alphas other) = length (alphas s)" using assms by (simp add: stream_inv_def)
  have b: "bucket hash s key < length (alphas other)" using wf_bucket[OF assms(1)] l by simp
  have ok: "index_ok (k s)" "index_ok (k other)" using assms by (simp_all add: stream_inv_def)
  show ?thesis
  proof (cases "m (k s) key")
    case None
    show ?thesis
    proof (cases "m (k other) key")
      case N2: None
      then show ?thesis using None b by (simp add: merge_key_def Let_def)
    next
      case (Some idx2)
      then show ?thesis using None b index_ok_lookup(1,2)[OF ok(2) Some]
        by (simp add: merge_key_def Let_def)
    qed
  next
    case (Some idx1)
    show ?thesis
    proof (cases "m (k other) key")
      case None
      then show ?thesis using Some b index_ok_lookup(1,2)[OF ok(1) Some]
        by (simp add: merge_key_def Let_def)
    next
      case S2: (Some idx2)
      then show ?thesis using Some b index_ok_lookup(1,2)[OF ok(1) Some]
          index_ok_lookup(1,2)[OF ok(2) S2]
        by (simp add: merge_key_def Let_def)
    qed
  qed
qed

lemma merge_elts_wf:
  assumes "stream_inv s" "stream_inv other" "n s = n other"
  shows "\<exists>es. merge_elts hash s other ks = Inr es \<and> set (map Key es) \<subseteq> set ks \<and>
              (distinct ks \<longrightarrow> distinct (map Key es))"
proof (induction ks)
  case Nil then show ?case by simp
next
  case (Cons key ks)
  then obtain es where es: "merge_elts hash s other ks = Inr es" "set (map Key es) \<subseteq> set ks"
    "distinct ks \<longrightarrow> distinct (map Key es)" by blast
  from merge_key_wf[OF assms, of hash key] show ?case
  proof
    assume "merge_key hash s other key = Inr None"
    then show ?thesis using es by auto
  next
    assume "\<exists>e. merge_key hash s other key = Inr (Some e) \<and> Key e = key"
    then obtain e where "merge_key hash s other key = Inr (Some e)" "Key e = key" by blast
    then show ?thesis using es by auto
  qed
qed

lemma foldl_heap_Push:
  "index_ok h \<Longrightarrow> is_heap (elts h) \<Longrightarrow> distinct (map Key xs) \<Longrightarrow>
   Key ` set xs \<inter> Key ` set (elts h) = {} \<Longrightarrow>
   index_ok (foldl heap_Push h xs) \<and> is_heap (elts (foldl heap_Push h xs)) \<and>
   mset (elts (foldl heap_Push h xs)) = mset (elts h) + mset xs"
proof (induction xs arbitrary: h)
  case Nil then show ?case by simp
next
  case (Cons x xs)
  let ?h1 = "heap_Push h x"
  have fresh: "Key x \<notin> Key ` set (elts h)" using Cons.prems(4) by auto
  note pp = heap_Push_preserves[of h x]
  have st: "set (elts ?h1) = insert x (set (elts h))"
    using pp(1) by (metis set_mset_add_mset_insert set_mset_mset)
  have "index_ok (foldl heap_Push ?h1 xs) \<and> is_heap (elts (foldl heap_Push ?h1 xs)) \<and>
        mset (elts (foldl heap_Push ?h1 xs)) = mset (elts ?h1) + mset xs"
  proof (rule Cons.IH)
    show "index_ok ?h1" using pp(2)[OF Cons.prems(1) fresh] .
    show "is_heap (elts ?h1)" using heap_Push_is_heap[OF Cons.prems(2)] .
    show "distinct (map Key xs)" using Cons.prems(3) by simp
    show "Key ` set xs \<inter> Key ` set (elts ?h1) = {}"
      using Cons.prems(3,4) unfolding st by auto
  qed
  then show ?case using pp(1) by simp
qed

lemma add_alphas_same_length:
  "length xs = length ys \<Longrightarrow> add_alphas xs ys = Inr (map2 int64_add xs ys)"
  by (simp add: add_alphas_def)

lemma Merge_wf:
  assumes wf: "stream_inv s" "stream_inv other" and ne: "n s = n other"
  shows "\<exists>s'. Merge hash s other = Inr s' \<and> stream_inv s'"
proof -
  obtain es where es: "merge_elts hash s other (eKeys s other) = Inr es"
    "distinct (map Key es)"
    using merge_elts_wf[OF wf ne, of hash "eKeys s other"] by (auto simp: eKeys_def)
  let ?srt = "sort_Sort elementsByCountDescending_Less es"
  let ?tr = "if int (length ?srt) > n s then take (nat (n s)) ?srt else ?srt"
  let ?tk = "foldl heap_Push \<lparr>m = Map.empty, elts = []\<rparr> ?tr"
  have n1: "1 \<le> n s" using wf(1) by (simp add: stream_inv_def)
  have "mset (map Key ?srt) = mset (map Key es)" by simp
  then have ds: "distinct (map Key ?srt)" using es(2) by (metis mset_eq_imp_distinct_iff)
  have dt: "distinct (map Key ?tr)" using ds by (simp add: take_map[symmetric])
  have lt: "int (length ?tr) \<le> n s" using n1 by auto
  have tk: "index_ok ?tk" "is_heap (elts ?tk)" "mset (elts ?tk) = mset ?tr"
    using foldl_heap_Push[of "\<lparr>m = Map.empty, elts = []\<rparr>" ?tr, OF _ _ dt] by simp_all
  have ltk: "length (elts ?tk) = length ?tr" using tk(3) by (metis size_mset)
  have la: "length (alphas s) = length (alphas other)" using wf ne by (simp add: stream_inv_def)
  let ?s' = "s\<lparr>k := ?tk, alphas := map2 int64_add (alphas s) (alphas other)\<rparr>"
  have "Merge hash s other = Inr ?s'"
    using ne es(1) n1 add_alphas_same_length[OF la] by (simp add: Merge_def Let_def)
  moreover have "stream_inv ?s'"
    using wf(1) tk(1,2) ltk lt la n1 by (simp add: stream_inv_def bufMultiplier_def)
  ultimately show ?thesis by blast
qed

lemma reachable_wf: "reachable hash s \<Longrightarrow> stream_inv s"
proof (induction rule: reachable.induct)
  case (reach_New sz s)
  then show ?case using wf_New[OF reach_New(1)] by auto
next
  case (reach_Insert s x w e s')
  then show ?case using Insert_wf_Inr by blast
next
  case (reach_Merge s other s')
  have "n s = n other" using reach_Merge(3) by (auto simp: Merge_def split: if_splits)
  then show ?case using Merge_wf[OF reach_Merge(4,5), of hash] reach_Merge(3) by auto
qed

lemma inserts_reachable:
  "reachable hash s \<Longrightarrow> inserts hash s ops = Inr s' \<Longrightarrow> reachable hash s'"
proof (induction ops arbitrary: s)
  case Nil then show ?case by simp
next
  case (Cons p ops)
  obtain x w where p: "p = (x, w)" by (cases p)
  obtain e s1 where ins: "Insert hash s x w = Inr (e, s1)"
    using Insert_wf[OF reachable_wf[OF Cons.prems(1)]] by blast
  have "reachable hash s1" using reach_Insert[OF Cons.prems(1) ins] .
  then show ?case using Cons.IH[of s1] Cons.prems(2) ins by (simp add: p)
qed

lemma full_example_run:
  "inserts one_bucket_hash \<lparr>n = 1, k = \<lparr>m = Map.empty, elts = []\<rparr>, alphas = replicate 36 0\<rparr>
     [(''a'', 10), (''b'', 10), (''c'', 10), (''d'', 10), (''e'', 10), (''f'', 10), (''g'', 3)]
   = Inr full_example"
  by (simp add: eval_simps full_example_def)

lemma full_example_reachable: "reachable one_bucket_hash full_example"
proof -
  have "New 1 = Inr \<lparr>n = 1, k = \<lparr>m = Map.empty, elts = []\<rparr>, alphas = replicate 36 0\<rparr>"
    by (simp add: New_def bufMultiplier_def)
  then have "reachable one_bucket_hash \<lparr>n = 1, k = \<lparr>m = Map.empty, elts = []\<rparr>, alphas = replicate 36 0\<rparr>"
    by (rule reach_New[rotated]) simp
  then show ?thesis using full_example_run by (rule inserts_reachable)
qed



lemma overflow_example_run:
  "inserts one_bucket_hash \<lparr>n = 1, k = \<lparr>m = Map.empty, elts = []\<rparr>, alphas = replicate 36 0\<rparr>
     [(''a'', 9223372036854775807), (''b'', 9223372036854775807), (''c'', 9223372036854775807),
      (''d'', 9223372036854775807), (''e'', 9223372036854775807), (''f'', 9223372036854775807)]
   = Inr overflow_example"
  by (simp add: eval_simps overflow_example_def)

lemma overflow_example_reachable: "reachable one_bucket_hash overflow_example"
proof -
  have "New 1 = Inr \<lparr>n = 1, k = \<lparr>m = Map.empty, elts = []\<rparr>, alphas = replicate 36 0\<rparr>"
    by (simp add: New_def bufMultiplier_def)
  then have "reachable one_bucket_hash \<lparr>n = 1, k = \<lparr>m = Map.empty, elts = []\<rparr>, alphas = replicate 36 0\<rparr>"
    by (rule reach_New[rotated]) simp
  then show ?thesis using overflow_example_run by (rule inserts_reachable)
qed

text \<open>
  C10, with the hypothesis that Go's 64-bit \<^verbatim>\<open>int\<close> makes necessary. On a full
  monitored set (\<open>n * bufMultiplier\<close> elements) of a stream built by the public
  operations, an \<^verbatim>\<open>Insert\<close> with \<open>weight \<ge> 1\<close>, where \<open>Count + weight < 2^63\<close> for
  every monitored \<open>Count\<close>, leaves the set full and does not decrease its minimum
  \<open>Count\<close>, which is the \<open>Count\<close> of the root before and after the call.
\<close>

theorem minimum_monotone:
  assumes "reachable hash s" and "int (length (elts (k s))) = n s * bufMultiplier" and "1 \<le> w"
    and "\<forall>e' \<in> set (elts (k s)). Count e' + w < 2 ^ 63"
  shows "\<exists>e s'. Insert hash s x w = Inr (e, s') \<and>
           int (length (elts (k s'))) = n s' * bufMultiplier \<and>
           (\<forall>e' \<in> set (elts (k s)). Count (elts (k s) ! 0) \<le> Count e') \<and>
           (\<forall>e' \<in> set (elts (k s')). Count (elts (k s') ! 0) \<le> Count e') \<and>
           Count (elts (k s) ! 0) \<le> Count (elts (k s') ! 0)"
proof -
  have wf: "stream_inv s" using assms(1) by (rule reachable_wf)
  obtain e s' where ins: "Insert hash s x w = Inr (e, s')" and wf': "stream_inv s'"
    using Insert_wf[OF wf] by blast
  have w0: "0 \<le> w" using assms(3) by simp
  note mm = Insert_min_monotone[OF wf w0 assms(2,4) ins]
  have "\<forall>e' \<in> set (elts (k s)). Count (elts (k s) ! 0) \<le> Count e'"
    using is_heap_root_min wf by (simp add: stream_inv_def)
  moreover have "\<forall>e' \<in> set (elts (k s')). Count (elts (k s') ! 0) \<le> Count e'"
    using is_heap_root_min wf' by (simp add: stream_inv_def)
  ultimately show ?thesis using ins mm(1,2) by blast
qed

theorem minimum_monotone_witness:
  "reachable one_bucket_hash full_example \<and>
   int (length (elts (k full_example))) = n full_example * bufMultiplier \<and> (1::int) \<le> 8 \<and>
   list_all (\<lambda>e'. Count e' + 8 < 2 ^ 63) (elts (k full_example)) \<and>
   (\<exists>e s'. Insert one_bucket_hash full_example ''h'' 8 = Inr (e, s') \<and>
      Count (elts (k full_example) ! 0) \<le> Count (elts (k s') ! 0))"
proof -
  have h: "\<forall>e' \<in> set (elts (k full_example)). Count e' + 8 < 2 ^ 63"
    by (simp add: full_example_def)
  have f: "int (length (elts (k full_example))) = n full_example * bufMultiplier"
    by (simp add: full_example_def bufMultiplier_def)
  show ?thesis
    using minimum_monotone [OF full_example_reachable f _ h, of "''h''"] full_example_reachable f h
    by (simp add: list_all_iff) blast
qed

text \<open>
  The claim without the bound fails: \<^verbatim>\<open>New(1)\<close> and six keys inserted with weight
  \<open>9223372036854775807\<close> give a full monitored set with \<open>a\<close> at the root; then
  \<^verbatim>\<open>Insert("a", 1)\<close>, a call with \<open>weight \<ge> 1\<close>, wraps the \<open>Count\<close> of \<open>a\<close> around to
  \<open>-2^63\<close>, and \<^verbatim>\<open>heap.Fix\<close> leaves \<open>a\<close> at the root: the minimum \<open>Count\<close> of the
  monitored set has decreased.
\<close>

theorem minimum_monotone_overflow_counterexample:
  "reachable one_bucket_hash overflow_example \<and>
   int (length (elts (k overflow_example))) = n overflow_example * bufMultiplier \<and> (1::int) \<le> 1 \<and>
   Insert one_bucket_hash overflow_example ''a'' 1
     = Inr (\<lparr>Key = ''a'', Count = - 9223372036854775808, Error = 0\<rparr>,
            overflow_example\<lparr>k := (k overflow_example)\<lparr>elts :=
              [\<lparr>Key = ''a'', Count = - 9223372036854775808, Error = 0\<rparr>,
               \<lparr>Key = ''b'', Count = 9223372036854775807, Error = 0\<rparr>,
               \<lparr>Key = ''c'', Count = 9223372036854775807, Error = 0\<rparr>,
               \<lparr>Key = ''d'', Count = 9223372036854775807, Error = 0\<rparr>,
               \<lparr>Key = ''e'', Count = 9223372036854775807, Error = 0\<rparr>,
               \<lparr>Key = ''f'', Count = 9223372036854775807, Error = 0\<rparr>]\<rparr>\<rparr>) \<and>
   Count (elts (k overflow_example) ! 0) = 9223372036854775807 \<and>
   (- 9223372036854775808 :: int) < Count (elts (k overflow_example) ! 0)"
  using overflow_example_reachable
  by (simp add: eval_simps overflow_example_def)

section \<open>Serialization round trip\<close>













section \<open>The total-weight counter\<close>

lemma TopK_Insert_wf:
  assumes "stream_inv (stream t)"
  shows "\<exists>e t'. TopK_Insert hash t x w = Inr (e, t') \<and> stream_inv (stream t') \<and>
           TopK_Count t' = TopK_Count t + w"
proof -
  obtain e s' where "Insert hash (stream t) x w = Inr (e, s')" "stream_inv s'"
    using Insert_wf[OF assms] by blast
  then show ?thesis by (simp add: TopK_Insert_def TopK_Count_def)
qed

lemma TopK_inserts_Count:
  "stream_inv (stream t) \<Longrightarrow>
   \<exists>t'. TopK_inserts hash t ops = Inr t' \<and> stream_inv (stream t') \<and>
        TopK_Count t' = TopK_Count t + sum_list (map snd ops)"
proof (induction ops arbitrary: t)
  case Nil then show ?case by simp
next
  case (Cons p ops)
  obtain x w where p: "p = (x, w)" by (cases p)
  obtain e t1 where t1: "TopK_Insert hash t x w = Inr (e, t1)" "stream_inv (stream t1)"
    "TopK_Count t1 = TopK_Count t + w"
    using TopK_Insert_wf[OF Cons.prems] by blast
  obtain t' where "TopK_inserts hash t1 ops = Inr t'" "stream_inv (stream t')"
    "TopK_Count t' = TopK_Count t1 + sum_list (map snd ops)"
    using Cons.IH[OF t1(2)] by blast
  then show ?case using t1 by (simp add: p)
qed

lemma TopK_Clear_wf: "stream_inv (stream t) \<Longrightarrow> stream_inv (stream (TopK_Clear t))"
  by (simp add: stream_inv_def TopK_Clear_def)

text \<open>
  C5. The sketch keeps a cumulative total-weight counter: every \<^verbatim>\<open>Insert(key, weight)\<close>
  adds \<open>weight\<close> to it whether or not the key is tracked, so that after any sequence
  of calls on a new sketch (or on a cleared one) \<^verbatim>\<open>Count()\<close> is the sum of the
  weights passed. The sketch type is modelled from the specification; the stream
  underneath is the one of \<^verbatim>\<open>topk.go\<close>, whose \<^verbatim>\<open>Insert\<close> never panics here.
\<close>

theorem total_weight_counter:
  assumes "1 \<le> sz"
  shows "\<exists>t0 t. TopK_New sz = Inr t0 \<and> TopK_Count t0 = 0 \<and>
           TopK_inserts hash t0 ops = Inr t \<and> TopK_Count t = sum_list (map snd ops) \<and>
           (\<forall>x w. \<exists>e t'. TopK_Insert hash t x w = Inr (e, t') \<and>
                     TopK_Count t' = TopK_Count t + w) \<and>
           TopK_Count (TopK_Clear t) = 0 \<and>
           (\<exists>t'. TopK_inserts hash (TopK_Clear t) ops' = Inr t' \<and>
                 TopK_Count t' = sum_list (map snd ops'))"
proof -
  obtain s0 where s0: "New sz = Inr s0" "stream_inv s0" using wf_New[OF assms] by blast
  let ?t0 = "\<lparr>stream = s0, totalWeight = 0\<rparr>"
  have n: "TopK_New sz = Inr ?t0" using assms s0(1) by (simp add: TopK_New_def)
  have w0: "stream_inv (stream ?t0)" using s0(2) by simp
  obtain t where t: "TopK_inserts hash ?t0 ops = Inr t" "stream_inv (stream t)"
    "TopK_Count t = TopK_Count ?t0 + sum_list (map snd ops)"
    using TopK_inserts_Count[OF w0] by blast
  have c0: "TopK_Count (TopK_Clear t) = 0" by (simp add: TopK_Count_def TopK_Clear_def)
  obtain t' where t': "TopK_inserts hash (TopK_Clear t) ops' = Inr t'"
    "TopK_Count t' = TopK_Count (TopK_Clear t) + sum_list (map snd ops')"
    using TopK_inserts_Count[OF TopK_Clear_wf[OF t(2)]] by blast
  have ins: "\<exists>e t'. TopK_Insert hash t x w = Inr (e, t') \<and> TopK_Count t' = TopK_Count t + w"
    for x w
    using TopK_Insert_wf[OF t(2), of hash x w] by blast
  show ?thesis
    using n t(1,3) t' c0 ins by (simp add: TopK_Count_def)
qed

theorem total_weight_counter_witness:
  "(1::int) \<le> 1 \<and>
   (\<exists>t0 t. TopK_New 1 = Inr t0 \<and>
      TopK_inserts one_bucket_hash t0 [(''a'', 5), (''b'', 3), (''c'', 7), (''d'', 2)] = Inr t \<and>
      TopK_Count t = 17)"
  using total_weight_counter [of 1 one_bucket_hash "[(''a'', 5), (''b'', 3), (''c'', 7), (''d'', 2)]" "[]"]
  by auto

section \<open>The eviction path and the two slips of Merge\<close>

text \<open>
  C3, as the code has it. On the eviction path of \<^verbatim>\<open>Insert(key, weight)\<close> (the key is
  not monitored, the set is full, and the bucket of the key plus the weight is not
  below the minimum \<open>Count\<close>), \<^verbatim>\<open>Insert\<close> writes the \<open>Count\<close> of the minimum into
  the bucket of the minimum's key, removes that key from the index map, and installs
  and returns \<open>Element{Key: key, Count: a + weight, Error: a}\<close>, where \<open>a\<close> is the
  bucket of the key read after that write: the value it had at the start of the
  call when the two buckets differ, and the \<open>Count\<close> of the evicted minimum when they
  coincide. Both sums are Go's \<^verbatim>\<open>+\<close> on \<^verbatim>\<open>int\<close>, for every weight.
\<close>

theorem eviction_path:
  assumes "reachable hash s" and "m (k s) x = None"
    and "\<not> int (length (elts (k s))) < n s * bufMultiplier"
    and "\<not> int64_add (alphas s ! bucket hash s x) w < Count (elts (k s) ! 0)"
  shows "\<exists>e s' idx. Insert hash s x w = Inr (e, s') \<and>
           alphas s' = (alphas s)[bucket hash s (Key (elts (k s) ! 0)) := Count (elts (k s) ! 0)] \<and>
           m (k s') (Key (elts (k s) ! 0)) = None \<and>
           e = \<lparr>Key = x,
                 Count = int64_add
                           (if bucket hash s x = bucket hash s (Key (elts (k s) ! 0))
                            then Count (elts (k s) ! 0) else alphas s ! bucket hash s x) w,
                 Error = (if bucket hash s x = bucket hash s (Key (elts (k s) ! 0))
                          then Count (elts (k s) ! 0) else alphas s ! bucket hash s x)\<rparr> \<and>
           m (k s') x = Some (int idx) \<and> idx < length (elts (k s')) \<and> elts (k s') ! idx = e \<and>
           mset (elts (k s')) = mset ((elts (k s))[0 := e])"
proof -
  have inv: "stream_inv s" using assms(1) by (rule reachable_wf)
  let ?r = "elts (k s) ! 0"
  let ?mk = "bucket hash s (Key ?r)"
  let ?b = "bucket hash s x"
  define al where "al = (alphas s)[?mk := Count ?r]"
  define e where "e = \<lparr>Key = x, Count = int64_add (al ! ?b) w, Error = al ! ?b\<rparr>"
  define s' where
    "s' = s\<lparr>k := heap_Fix \<lparr>m = ((m (k s))(Key ?r := None))(x \<mapsto> 0),
                             elts = (elts (k s))[0 := e]\<rparr> 0,
              alphas := al\<rparr>"
  note ie = Insert_evict[OF inv assms(2,3,4), folded al_def, folded e_def, folded s'_def]
  have ke: "Key e = x" by (simp add: e_def)
  have al': "alphas s' = al" by (simp add: s'_def)
  have ok: "index_ok (k s)" using inv by (simp add: stream_inv_def)
  have ok': "index_ok (k s')" using ie(2) by (simp add: stream_inv_def)
  note ne = wf_full_nonempty[OF inv assms(3)]
  have rm: "Key ?r \<in> Key ` set (elts (k s))" using ne by simp
  have xk: "x \<notin> Key ` set (elts (k s))" using assms(2) ok by (simp add: index_ok_None)
  have st: "set (elts (k s')) = set ((elts (k s))[0 := e])" using ie(3) by (rule mset_eq_set)
  have keys: "Key ` set (elts (k s')) = insert x (Key ` set (elts (k s)) - {Key ?r})"
    unfolding st using index_ok_replace_root(2)[OF ok ne(1) assms(2) ke] .
  have gone: "m (k s') (Key ?r) = None"
    using keys xk rm index_ok_None[OF ok', of "Key ?r"] by auto
  have "e \<in> set (elts (k s'))" unfolding st using ne by (simp add: set_update_memI)
  then obtain idx where idx: "idx < length (elts (k s'))" "elts (k s') ! idx = e"
    by (auto simp: in_set_conv_nth)
  have mx: "m (k s') x = Some (int idx)"
    using ok' idx ke unfolding index_ok_def by metis
  have av: "al ! ?b = (if ?b = ?mk then Count ?r else alphas s ! ?b)"
    using wf_bucket[OF inv, of hash] by (simp add: al_def nth_list_update)
  have ev: "e = \<lparr>Key = x,
                 Count = int64_add (if ?b = ?mk then Count ?r else alphas s ! ?b) w,
                 Error = (if ?b = ?mk then Count ?r else alphas s ! ?b)\<rparr>"
    unfolding e_def av ..
  show ?thesis
    using ie(1,3) al'[unfolded al_def] gone ev mx idx by blast
qed

theorem eviction_path_witness:
  "reachable one_bucket_hash full_example \<and> m (k full_example) ''h'' = None \<and>
   \<not> int (length (elts (k full_example))) < n full_example * bufMultiplier \<and>
   \<not> int64_add (alphas full_example ! bucket one_bucket_hash full_example ''h'') 8
       < Count (elts (k full_example) ! 0) \<and>
   (\<exists>s'. Insert one_bucket_hash full_example ''h'' 8
           = Inr (\<lparr>Key = ''h'', Count = 18, Error = 10\<rparr>, s') \<and>
         m (k s') ''a'' = None \<and> alphas s' = (replicate 36 0)[0 := 10])"
  using eviction_path [OF full_example_reachable, of "''h''" 8] full_example_reachable
  by (auto simp: full_example_def bufMultiplier_def bucket_def one_bucket_hash_def reduce_def
      int64_add_def int64_wrap_def)

text \<open>
  C3 as stated fails where the two buckets coincide. On \<open>full_example\<close> the bucket
  shared by \<open>h\<close> and the minimum \<open>a\<close> holds 3 at the start of \<^verbatim>\<open>Insert("h", 8)\<close>; the
  call takes the eviction path (\<open>3 + 8 \<ge> 10\<close>), writes 10 into the bucket and only then
  reads it: the element is \<open>{h, 18, 10}\<close>, not \<open>{h, 3 + 8, 3}\<close>.
\<close>

theorem eviction_pre_eviction_bucket_counterexample:
  "reachable one_bucket_hash full_example \<and> m (k full_example) ''h'' = None \<and>
   \<not> int (length (elts (k full_example))) < n full_example * bufMultiplier \<and>
   alphas full_example ! bucket one_bucket_hash full_example ''h'' = 3 \<and>
   \<not> 3 + 8 < Count (elts (k full_example) ! 0) \<and>
   bucket one_bucket_hash full_example ''h''
     = bucket one_bucket_hash full_example (Key (elts (k full_example) ! 0)) \<and>
   Insert one_bucket_hash full_example ''h'' 8 =
     Inr (\<lparr>Key = ''h'', Count = 18, Error = 10\<rparr>,
          \<lparr>n = 1,
           k = \<lparr>m = [''c'' \<mapsto> 2, ''e'' \<mapsto> 4, ''f'' \<mapsto> 5, ''b'' \<mapsto> 0, ''d'' \<mapsto> 1, ''h'' \<mapsto> 3],
                elts = [\<lparr>Key = ''b'', Count = 10, Error = 0\<rparr>, \<lparr>Key = ''d'', Count = 10, Error = 0\<rparr>,
                        \<lparr>Key = ''c'', Count = 10, Error = 0\<rparr>, \<lparr>Key = ''h'', Count = 18, Error = 10\<rparr>,
                        \<lparr>Key = ''e'', Count = 10, Error = 0\<rparr>, \<lparr>Key = ''f'', Count = 10, Error = 0\<rparr>]\<rparr>,
           alphas = (replicate 36 0)[0 := 10]\<rparr>) \<and>
   \<lparr>Key = ''h'', Count = 18, Error = 10\<rparr> \<noteq> \<lparr>Key = ''h'', Count = 3 + 8, Error = 3\<rparr>"
proof -
  have "Insert one_bucket_hash full_example ''h'' 8 =
     Inr (\<lparr>Key = ''h'', Count = 18, Error = 10\<rparr>,
          \<lparr>n = 1,
           k = \<lparr>m = [''c'' \<mapsto> 2, ''e'' \<mapsto> 4, ''f'' \<mapsto> 5, ''b'' \<mapsto> 0, ''d'' \<mapsto> 1, ''h'' \<mapsto> 3],
                elts = [\<lparr>Key = ''b'', Count = 10, Error = 0\<rparr>, \<lparr>Key = ''d'', Count = 10, Error = 0\<rparr>,
                        \<lparr>Key = ''c'', Count = 10, Error = 0\<rparr>, \<lparr>Key = ''h'', Count = 18, Error = 10\<rparr>,
                        \<lparr>Key = ''e'', Count = 10, Error = 0\<rparr>, \<lparr>Key = ''f'', Count = 10, Error = 0\<rparr>]\<rparr>,
           alphas = (replicate 36 0)[0 := 10]\<rparr>)"
    by (simp add: eval_simps full_example_def)
  then show ?thesis
    using full_example_reachable
    by (simp add: full_example_def bufMultiplier_def bucket_def one_bucket_hash_def reduce_def)
qed

text \<open>
  What \<^verbatim>\<open>Merge\<close> computes on two streams of the same size that satisfy the
  invariant: for a key tracked in one operand only, the element of that operand plus
  the bucket of \<^verbatim>\<open>other.alphas\<close> in both cases; and a monitored set made of the first
  \<open>n\<close> combined elements in the order of \<^verbatim>\<open>elementsByCountDescending\<close>.
\<close>

lemma merge_key_only_receiver:
  assumes "stream_inv s" "stream_inv other" "n s = n other"
    and "m (k s) key = Some idx" "m (k other) key = None"
  shows "merge_key hash s other key =
           Inr (Some \<lparr>Key = key,
                      Count = int64_add (Count (elts (k s) ! nat idx))
                                (alphas other ! bucket hash s key),
                      Error = int64_add (Error (elts (k s) ! nat idx))
                                (alphas other ! bucket hash s key)\<rparr>)"
proof -
  have l: "length (alphas other) = length (alphas s)" using assms(1-3) by (simp add: stream_inv_def)
  have b: "bucket hash s key < length (alphas other)" using wf_bucket[OF assms(1)] l by simp
  have ok: "index_ok (k s)" using assms(1) by (simp add: stream_inv_def)
  show ?thesis
    using assms(4,5) b index_ok_lookup(1,2)[OF ok assms(4)] by (simp add: merge_key_def Let_def)
qed

lemma merge_key_only_other:
  assumes "stream_inv s" "stream_inv other" "n s = n other"
    and "m (k s) key = None" "m (k other) key = Some idx"
  shows "merge_key hash s other key =
           Inr (Some \<lparr>Key = key,
                      Count = int64_add (Count (elts (k other) ! nat idx))
                                (alphas other ! bucket hash s key),
                      Error = int64_add (Error (elts (k other) ! nat idx))
                                (alphas other ! bucket hash s key)\<rparr>)"
proof -
  have l: "length (alphas other) = length (alphas s)" using assms(1-3) by (simp add: stream_inv_def)
  have b: "bucket hash s key < length (alphas other)" using wf_bucket[OF assms(1)] l by simp
  have ok: "index_ok (k other)" using assms(2) by (simp add: stream_inv_def)
  show ?thesis
    using assms(4,5) b index_ok_lookup(1,2)[OF ok assms(5)] by (simp add: merge_key_def Let_def)
qed

lemma Merge_monitored:
  assumes "stream_inv s" "stream_inv other" "n s = n other"
  shows "\<exists>es s'. merge_elts hash s other (eKeys s other) = Inr es \<and>
           Merge hash s other = Inr s' \<and>
           mset (elts (k s')) =
             mset (take (nat (n s)) (sort_Sort elementsByCountDescending_Less es)) \<and>
           int (length (elts (k s'))) \<le> n s \<and>
           alphas s' = map2 int64_add (alphas s) (alphas other)"
proof -
  obtain es where es: "merge_elts hash s other (eKeys s other) = Inr es"
    "distinct (map Key es)"
    using merge_elts_wf[OF assms, of hash "eKeys s other"] by (auto simp: eKeys_def)
  let ?srt = "sort_Sort elementsByCountDescending_Less es"
  let ?tk = "foldl heap_Push \<lparr>m = Map.empty, elts = []\<rparr> (take (nat (n s)) ?srt)"
  have n1: "1 \<le> n s" using assms(1) by (simp add: stream_inv_def)
  have "mset (map Key ?srt) = mset (map Key es)" by simp
  then have ds: "distinct (map Key ?srt)" using es(2) by (metis mset_eq_imp_distinct_iff)
  have dt: "distinct (map Key (take (nat (n s)) ?srt))" using ds by (simp add: take_map[symmetric])
  have tk: "mset (elts ?tk) = mset (take (nat (n s)) ?srt)"
    using foldl_heap_Push[of "\<lparr>m = Map.empty, elts = []\<rparr>" "take (nat (n s)) ?srt", OF _ _ dt]
    by simp
  have la: "length (alphas s) = length (alphas other)" using assms by (simp add: stream_inv_def)
  have tr: "(if int (length ?srt) > n s then take (nat (n s)) ?srt else ?srt) = take (nat (n s)) ?srt"
    by simp
  have mg: "Merge hash s other = Inr (s\<lparr>k := ?tk, alphas := map2 int64_add (alphas s) (alphas other)\<rparr>)"
    using assms(3) es(1) n1 add_alphas_same_length[OF la] unfolding Merge_def Let_def tr by simp
  have "length (elts ?tk) = length (take (nat (n s)) ?srt)" using tk by (metis size_mset)
  then have "int (length (elts ?tk)) \<le> n s" using n1 by simp
  then show ?thesis using es(1) mg tk by simp
qed

text \<open>
  C2 at a key tracked only in \<^verbatim>\<open>other\<close>. The receiver is \<^verbatim>\<open>New(1)\<close> after six keys
  of weight 10 and \<open>g\<close> of weight 3 (absorbed by the filter: the bucket of \<open>g\<close> holds
  3); \<^verbatim>\<open>other\<close> is \<^verbatim>\<open>New(1)\<close> after \<^verbatim>\<open>Insert("g", 20)\<close>. For \<open>g\<close>, \<^verbatim>\<open>Merge\<close> adds the
  bucket of \<^verbatim>\<open>other\<close>'s own filter, which holds 0, and not the receiver's: the combined
  element is \<open>{g, 20, 0}\<close> where the specification has \<open>{g, 23, 3}\<close>, and 23 is the weight
  inserted for \<open>g\<close>. This holds for every hash function.
\<close>

theorem Merge_reads_other_filter_for_other_only_key:
  "New 1 = Inr \<lparr>n = 1, k = \<lparr>m = Map.empty, elts = []\<rparr>, alphas = replicate 36 0\<rparr> \<and>
   inserts hash \<lparr>n = 1, k = \<lparr>m = Map.empty, elts = []\<rparr>, alphas = replicate 36 0\<rparr>
     [(''a'', 10), (''b'', 10), (''c'', 10), (''d'', 10), (''e'', 10), (''f'', 10), (''g'', 3)]
     = Inr (filtered_example hash) \<and>
   inserts hash \<lparr>n = 1, k = \<lparr>m = Map.empty, elts = []\<rparr>, alphas = replicate 36 0\<rparr> [(''g'', 20)]
     = Inr (single_example ''g'' 20) \<and>
   m (k (filtered_example hash)) ''g'' = None \<and>
   m (k (single_example ''g'' 20)) ''g'' = Some 0 \<and>
   alphas (filtered_example hash) ! bucket hash (filtered_example hash) ''g'' = 3 \<and>
   alphas (single_example ''g'' 20) ! bucket hash (filtered_example hash) ''g'' = 0 \<and>
   merge_key hash (filtered_example hash) (single_example ''g'' 20) ''g''
     = Inr (Some \<lparr>Key = ''g'', Count = 20, Error = 0\<rparr>) \<and>
   map_sum id (\<lambda>s'. elts (k s')) (Merge hash (filtered_example hash) (single_example ''g'' 20))
     = Inr [\<lparr>Key = ''g'', Count = 20, Error = 0\<rparr>] \<and>
   trueFrequency ([(''a'', 10), (''b'', 10), (''c'', 10), (''d'', 10), (''e'', 10), (''f'', 10),
                   (''g'', 3)] @ [(''g'', 20)]) ''g'' = 23"
proof (intro conjI)
  show "New 1 = Inr \<lparr>n = 1, k = \<lparr>m = Map.empty, elts = []\<rparr>, alphas = replicate 36 0\<rparr>"
    by (simp add: New_def bufMultiplier_def)
  show "inserts hash \<lparr>n = 1, k = \<lparr>m = Map.empty, elts = []\<rparr>, alphas = replicate 36 0\<rparr>
     [(''a'', 10), (''b'', 10), (''c'', 10), (''d'', 10), (''e'', 10), (''f'', 10), (''g'', 3)]
     = Inr (filtered_example hash)"
    by (simp add: gen_simps filtered_example_def)
  show "inserts hash \<lparr>n = 1, k = \<lparr>m = Map.empty, elts = []\<rparr>, alphas = replicate 36 0\<rparr> [(''g'', 20)]
     = Inr (single_example ''g'' 20)"
    by (simp add: gen_simps single_example_def)
  show "m (k (filtered_example hash)) ''g'' = None" by (simp add: filtered_example_def)
  show "m (k (single_example ''g'' 20)) ''g'' = Some 0" by (simp add: single_example_def)
  show "alphas (filtered_example hash) ! bucket hash (filtered_example hash) ''g'' = 3"
    by (simp add: filtered_example_def bucket_def reduce36)
  show "alphas (single_example ''g'' 20) ! bucket hash (filtered_example hash) ''g'' = 0"
    by (simp add: filtered_example_def single_example_def bucket_def reduce36)
  show "merge_key hash (filtered_example hash) (single_example ''g'' 20) ''g''
     = Inr (Some \<lparr>Key = ''g'', Count = 20, Error = 0\<rparr>)"
    by (simp add: gen_simps filtered_example_def single_example_def)
  show "map_sum id (\<lambda>s'. elts (k s')) (Merge hash (filtered_example hash) (single_example ''g'' 20))
     = Inr [\<lparr>Key = ''g'', Count = 20, Error = 0\<rparr>]"
    by (simp add: gen_simps filtered_example_def single_example_def)
  show "trueFrequency ([(''a'', 10), (''b'', 10), (''c'', 10), (''d'', 10), (''e'', 10), (''f'', 10),
                   (''g'', 3)] @ [(''g'', 20)]) ''g'' = 23"
    by (simp add: trueFrequency_def)
qed

text \<open>
  C4 at two streams of size 1, one holding \<open>a\<close> and the other \<open>b\<close>. The union has two
  keys, more than \<open>n = 1\<close> and fewer than the capacity \<open>n * bufMultiplier = 6\<close>; the
  sorted list is cut to \<^verbatim>\<open>s.n\<close> entries and the rebuilt monitored set holds \<open>b\<close>
  alone. The merged stream has free space again, so that the next \<^verbatim>\<open>Insert("a", 1)\<close>
  starts \<open>a\<close> anew at \<open>Count = 1\<close>, below the weight 2 inserted for it. This holds
  for every hash function.
\<close>

theorem Merge_truncates_to_target_size:
  "inserts hash \<lparr>n = 1, k = \<lparr>m = Map.empty, elts = []\<rparr>, alphas = replicate 36 0\<rparr> [(''a'', 1)]
     = Inr (single_example ''a'' 1) \<and>
   inserts hash \<lparr>n = 1, k = \<lparr>m = Map.empty, elts = []\<rparr>, alphas = replicate 36 0\<rparr> [(''b'', 2)]
     = Inr (single_example ''b'' 2) \<and>
   eKeys (single_example ''a'' 1) (single_example ''b'' 2) = [''a'', ''b''] \<and>
   n (single_example ''a'' 1) < 2 \<and> 2 \<le> n (single_example ''a'' 1) * bufMultiplier \<and>
   merge_elts hash (single_example ''a'' 1) (single_example ''b'' 2) [''a'', ''b'']
     = Inr [\<lparr>Key = ''a'', Count = 1, Error = 0\<rparr>, \<lparr>Key = ''b'', Count = 2, Error = 0\<rparr>] \<and>
   Merge hash (single_example ''a'' 1) (single_example ''b'' 2) = Inr (single_example ''b'' 2) \<and>
   map_sum id fst (Insert hash (single_example ''b'' 2) ''a'' 1)
     = Inr \<lparr>Key = ''a'', Count = 1, Error = 0\<rparr> \<and>
   trueFrequency [(''a'', 1), (''b'', 2), (''a'', 1)] ''a'' = 2"
proof (intro conjI)
  show "inserts hash \<lparr>n = 1, k = \<lparr>m = Map.empty, elts = []\<rparr>, alphas = replicate 36 0\<rparr> [(''a'', 1)]
     = Inr (single_example ''a'' 1)"
    by (simp add: gen_simps single_example_def)
  show "inserts hash \<lparr>n = 1, k = \<lparr>m = Map.empty, elts = []\<rparr>, alphas = replicate 36 0\<rparr> [(''b'', 2)]
     = Inr (single_example ''b'' 2)"
    by (simp add: gen_simps single_example_def)
  show "eKeys (single_example ''a'' 1) (single_example ''b'' 2) = [''a'', ''b'']"
    by (simp add: eKeys_def single_example_def)
  show "n (single_example ''a'' 1) < 2" by (simp add: single_example_def)
  show "2 \<le> n (single_example ''a'' 1) * bufMultiplier"
    by (simp add: single_example_def bufMultiplier_def)
  show "merge_elts hash (single_example ''a'' 1) (single_example ''b'' 2) [''a'', ''b'']
     = Inr [\<lparr>Key = ''a'', Count = 1, Error = 0\<rparr>, \<lparr>Key = ''b'', Count = 2, Error = 0\<rparr>]"
    by (simp add: gen_simps single_example_def)
  show "Merge hash (single_example ''a'' 1) (single_example ''b'' 2) = Inr (single_example ''b'' 2)"
    by (simp add: gen_simps single_example_def)
  show "map_sum id fst (Insert hash (single_example ''b'' 2) ''a'' 1)
     = Inr \<lparr>Key = ''a'', Count = 1, Error = 0\<rparr>"
    by (simp add: gen_simps single_example_def)
  show "trueFrequency [(''a'', 1), (''b'', 2), (''a'', 1)] ''a'' = 2"
    by (simp add: trueFrequency_def)
qed

end
